theory Spec2Isabelle
  imports Main "HOL-Library.Multiset" "HOL-Library.Monad_Syntax"
begin

section \<open>Values, tile tags and the colour table\<close>

text \<open>
  The grid of \<^verbatim>\<open>logic.js\<close> holds JavaScript values: the one-character strings that tag
  a tile, the number \<^verbatim>\<open>-1\<close> that \<^verbatim>\<open>applyPhysics\<close> writes over a moved tile, and
  \<^verbatim>\<open>undefined\<close>, which is what reading past the end of an array yields.
\<close>

datatype val = Str string | Num int | Undefined

definition TILE_AIR :: val where
  "TILE_AIR = Str ''a''"

definition TILE_LAND :: val where
  "TILE_LAND = Str ''l''"

definition TILE_WATER :: val where
  "TILE_WATER = Str ''w''"

definition TILE_STATIC :: val where
  "TILE_STATIC = Str ''s''"

definition TILE_TYPES :: "val list" where
  "TILE_TYPES = [TILE_AIR, TILE_LAND, TILE_WATER, TILE_STATIC]"

text \<open>The own properties of the object literal \<^verbatim>\<open>TILE_COLORS\<close>, in source order.\<close>

definition TILE_COLORS :: "(string \<times> string) list" where
  "TILE_COLORS =
    [(''a'', ''#ffffff''), (''l'', ''#2affa2''), (''w'', ''#add8e6''), (''s'', ''#000000''),
     (''0'', ''#000000''), (''1'', ''#f7941d''), (''2'', ''#00ffff''), (''3'', ''#fff200''),
     (''4'', ''#00ff00''), (''5'', ''#ec008c''), (''6'', ''#959595''), (''7'', ''#92278f''),
     (''8'', ''#0000ff''), (''9'', ''#ff00ff''), (''-'', ''#754c24''), (''='', ''#ed1c24'')]"

text \<open>
  \<^verbatim>\<open>TILE_COLORS[ k ]\<close> is a JavaScript property read. \<^verbatim>\<open>TILE_COLORS\<close> is an object
  literal, so a name that is not an own property is looked up in \<^verbatim>\<open>Object.prototype\<close>.
  The names below are the ones the language standard puts there (ECMA-262, with the
  Annex B names that every browser has); each is bound to a function object, or for
  \<^verbatim>\<open>__proto__\<close> to the prototype object itself, and every object is truthy.
\<close>

definition Object_prototype :: "string list" where
  "Object_prototype =
    [''constructor'', ''hasOwnProperty'', ''isPrototypeOf'', ''propertyIsEnumerable'',
     ''toLocaleString'', ''toString'', ''valueOf'', ''__proto__'',
     ''__defineGetter__'', ''__defineSetter__'', ''__lookupGetter__'', ''__lookupSetter__'']"

datatype property = Colour string | Inherited | Absent

definition TILE_COLORS_get :: "string \<Rightarrow> property" where
  "TILE_COLORS_get k =
    (case map_of TILE_COLORS k of
       Some c \<Rightarrow> Colour c
     | None \<Rightarrow> if k \<in> set Object_prototype then Inherited else Absent)"

text \<open>JavaScript truthiness of the result of a property read: a string is truthy unless
  it is empty, an object is truthy, \<^verbatim>\<open>undefined\<close> is falsy.\<close>

fun truthy :: "property \<Rightarrow> bool" where
  "truthy (Colour c) = (c \<noteq> [])"
| "truthy Inherited = True"
| "truthy Absent = False"

section \<open>The grid\<close>

text \<open>
  \<^verbatim>\<open>this.tiles\<close> is an array of columns, \<^verbatim>\<open>tiles[ x ][ y ]\<close>. Reading
  \<^verbatim>\<open>tiles[ x ][ y ]\<close> throws a TypeError when \<^verbatim>\<open>tiles[ x ]\<close> is \<^verbatim>\<open>undefined\<close>
  (the result \<open>None\<close>), and yields \<^verbatim>\<open>undefined\<close> when the column exists and \<open>y\<close> is
  past its end. Writing throws in the first case and extends the column in the second.
  Indices are the loop counters and floored pointer coordinates of the source, which are
  natural numbers wherever an array is indexed.
\<close>

type_synonym grid = "val list list"

definition rd :: "grid \<Rightarrow> nat \<Rightarrow> nat \<Rightarrow> val option" where
  "rd g x y =
    (if x < length g then Some (if y < length (g ! x) then g ! x ! y else Undefined)
     else None)"

definition array_set :: "val list \<Rightarrow> nat \<Rightarrow> val \<Rightarrow> val list" where
  "array_set xs i v =
    (if i < length xs then xs[i := v]
     else xs @ replicate (i - length xs) Undefined @ [v])"

definition wr :: "grid \<Rightarrow> nat \<Rightarrow> nat \<Rightarrow> val \<Rightarrow> grid option" where
  "wr g x y v = (if x < length g then Some (g[x := array_set (g ! x) y v]) else None)"

text \<open>A changed-cell record \<^verbatim>\<open>{ x: .., y: .., value: .. }\<close>.\<close>

datatype redraw = Redraw (rx: nat) (ry: nat) (rvalue: val)

definition coord :: "redraw \<Rightarrow> nat \<times> nat" where
  "coord r = (rx r, ry r)"

section \<open>The Sand object\<close>

text \<open>The fields of \<^verbatim>\<open>Sand\<close> that the engine reads and writes. The canvas and its
  drawing context belong to the browser and are left out. The two tile counts are the
  canvas size divided by \<open>tileSize\<close> (960 / 10 and 640 / 10 on the page), taken here
  as natural numbers.\<close>

record sand =
  tileSize :: nat
  horizontalTileCount :: nat
  verticalTileCount :: nat
  tiles :: grid
  isDrawing :: bool
  currentTileType :: string

text \<open>\<^verbatim>\<open>updateCurrentTileType( event )\<close>, with \<open>key\<close> standing for \<^verbatim>\<open>event.key\<close>.\<close>

definition updateCurrentTileType :: "string \<Rightarrow> sand \<Rightarrow> sand" where
  "updateCurrentTileType key this =
    (if \<not> truthy (TILE_COLORS_get key) then this
     else this\<lparr>currentTileType := key\<rparr>)"

section \<open>Loops\<close>

text \<open>A counted loop whose body may throw: the first exception ends it.\<close>

primrec for_each :: "('i \<Rightarrow> 's \<Rightarrow> 's option) \<Rightarrow> 'i list \<Rightarrow> 's \<Rightarrow> 's option" where
  "for_each body [] s = Some s"
| "for_each body (i # is) s =
    (case body i s of None \<Rightarrow> None | Some s' \<Rightarrow> for_each body is s')"

section \<open>drawScreen\<close>

text \<open>
  \<^verbatim>\<open>drawScreen( tilesToRedraw )\<close> walks the list from index 0 and stores each record's
  value in the grid. The two canvas calls in its body paint the browser's canvas and do
  not touch the grid.
\<close>

definition drawScreen :: "redraw list \<Rightarrow> sand \<Rightarrow> sand option" where
  "drawScreen tilesToRedraw this = do {
     g \<leftarrow> for_each (\<lambda>tile g. wr g (rx tile) (ry tile) (rvalue tile)) tilesToRedraw (tiles this);
     Some (this\<lparr>tiles := g\<rparr>)
   }"

section \<open>applyPhysics\<close>

text \<open>
  The local state of one scan: \<open>cells\<close> is the local \<^verbatim>\<open>tiles\<close>, the same array object
  as \<^verbatim>\<open>this.tiles\<close>; \<open>tilesToRedraw\<close> is the list being built; \<open>accesses\<close> is a trace
  of the grid elements the scan has read and written, in order, which the source does
  not keep and which no operation reads.
\<close>

datatype access = Lookup nat nat | Store nat nat

record scan =
  cells :: grid
  tilesToRedraw :: "redraw list"
  accesses :: "access list"

definition lookup :: "nat \<Rightarrow> nat \<Rightarrow> scan \<Rightarrow> (val \<times> scan) option" where
  "lookup x y s =
    (case rd (cells s) x y of
       None \<Rightarrow> None
     | Some v \<Rightarrow> Some (v, s\<lparr>accesses := accesses s @ [Lookup x y]\<rparr>))"

definition store :: "nat \<Rightarrow> nat \<Rightarrow> val \<Rightarrow> scan \<Rightarrow> scan option" where
  "store x y v s =
    (case wr (cells s) x y v of
       None \<Rightarrow> None
     | Some g \<Rightarrow> Some (s\<lparr>cells := g, accesses := accesses s @ [Store x y]\<rparr>))"

definition push2 :: "redraw \<Rightarrow> redraw \<Rightarrow> scan \<Rightarrow> scan" where
  "push2 a b s = s\<lparr>tilesToRedraw := tilesToRedraw s @ [a, b]\<rparr>"

text \<open>
  The body of the inner loop at \<open>(x, y)\<close>. \<open>M\<close> is \<^verbatim>\<open>this.verticalTileCount\<close>;
  \<open>flip x y\<close> is the outcome of \<^verbatim>\<open>Math.floor( Math.random() * 2 )\<close> drawn while
  \<open>(x, y)\<close> is visited (at most one draw per visit), \<open>True\<close> for 1.
  \<open>tile\<close> and \<open>tileBelow\<close> are read once, before the guard \<^verbatim>\<open>y < M - 1\<close>, and are
  not read again after the vertical rule has written the grid. \<open>M - 1\<close> is a natural
  number here: for \<open>M = 0\<close> the guard is false in both readings. The loose comparison
  \<^verbatim>\<open>tileBefore == TILE_AIR\<close> agrees with \<^verbatim>\<open>===\<close> on strings, numbers and
  \<^verbatim>\<open>undefined\<close>.
\<close>

definition visit :: "nat \<Rightarrow> (nat \<Rightarrow> nat \<Rightarrow> bool) \<Rightarrow> nat \<Rightarrow> nat \<Rightarrow> scan \<Rightarrow> scan option" where
  "visit M flip x y s0 = do {
     (tile, s1) \<leftarrow> lookup x y s0;
     (tileBelow, s2) \<leftarrow> lookup x (y + 1) s1;
     if y < M - 1 then do {
       s3 \<leftarrow>
         (if (if tile = TILE_LAND \<and> (tileBelow = TILE_AIR \<or> tileBelow = TILE_WATER) then True
              else if tile = TILE_WATER \<and> tileBelow = TILE_AIR then True
              else False)
          then do {
            s \<leftarrow> store x y (Num (- 1))
                   (push2 (Redraw x y tileBelow) (Redraw x (y + 1) tile) s2);
            store x (y + 1) (Num (- 1)) s
          }
          else Some s2);
       if x > 0 then do {
         (tileBefore, s4) \<leftarrow> lookup (x - 1) y s3;
         (tileBelowBefore, s5) \<leftarrow> lookup (x - 1) (y + 1) s4;
         if (if flip x y \<and> tile = TILE_WATER \<and> tileBefore = TILE_AIR \<and> tileBelow \<noteq> TILE_AIR
             then True
             else if \<not> flip x y \<and> tile = TILE_AIR \<and> tileBefore = TILE_WATER
                        \<and> tileBelowBefore \<noteq> TILE_AIR then True
             else False)
         then do {
           s \<leftarrow> store x y (Num (- 1))
                  (push2 (Redraw x y tileBefore) (Redraw (x - 1) y tile) s5);
           store (x - 1) y (Num (- 1)) s
         }
         else Some s5
       }
       else Some s3
     }
     else Some s2
   }"

text \<open>The two nested loops of \<^verbatim>\<open>applyPhysics\<close>, from the locals \<open>L\<close>, \<open>M\<close> and \<open>tiles\<close>.\<close>

definition scan_start :: "grid \<Rightarrow> scan" where
  "scan_start g = \<lparr>cells = g, tilesToRedraw = [], accesses = []\<rparr>"

definition scan_grid :: "nat \<Rightarrow> nat \<Rightarrow> (nat \<Rightarrow> nat \<Rightarrow> bool) \<Rightarrow> grid \<Rightarrow> scan option" where
  "scan_grid L M flip g =
    for_each (\<lambda>x. for_each (visit M flip x) [0..<M]) [0..<L] (scan_start g)"

definition applyPhysics :: "(nat \<Rightarrow> nat \<Rightarrow> bool) \<Rightarrow> sand \<Rightarrow> (redraw list \<times> sand) option" where
  "applyPhysics flip this = do {
     s \<leftarrow> scan_grid (horizontalTileCount this) (verticalTileCount this) flip (tiles this);
     Some (tilesToRedraw s, this\<lparr>tiles := cells s\<rparr>)
   }"

text \<open>One frame of \<^verbatim>\<open>render\<close>: the scan, then the redraw of what it returned. The
  request for the next frame is the browser's.\<close>

definition render :: "(nat \<Rightarrow> nat \<Rightarrow> bool) \<Rightarrow> sand \<Rightarrow> sand option" where
  "render flip this = do {
     (tilesToRedraw, this1) \<leftarrow> applyPhysics flip this;
     drawScreen tilesToRedraw this1
   }"

section \<open>Notions used to state the properties\<close>

text \<open>
  The shape \<^verbatim>\<open>initialize\<close> builds and every operation keeps: \<open>L\<close> columns of
  \<open>M\<close> cells each.
\<close>

definition rect :: "nat \<Rightarrow> nat \<Rightarrow> grid \<Rightarrow> bool" where
  "rect L M g \<longleftrightarrow> length g = L \<and> (\<forall>c \<in> set g. length c = M)"

definition well_formed :: "sand \<Rightarrow> bool" where
  "well_formed this \<longleftrightarrow> rect (horizontalTileCount this) (verticalTileCount this) (tiles this)"

text \<open>A store inside the grid: what \<open>wr\<close> does when both indices are in range.\<close>

definition put :: "grid \<Rightarrow> nat \<Rightarrow> nat \<Rightarrow> val \<Rightarrow> grid" where
  "put g x y v = g[x := (g ! x)[y := v]]"

text \<open>The values the rules of \<^verbatim>\<open>applyPhysics\<close> test for as the moving tile.\<close>

definition movable :: "val \<Rightarrow> bool" where
  "movable v \<longleftrightarrow> v = TILE_AIR \<or> v = TILE_LAND \<or> v = TILE_WATER"

text \<open>The tile values: the keys of \<^verbatim>\<open>TILE_COLORS\<close>. The static ones are all but air,
  land and water.\<close>

definition is_tile :: "val \<Rightarrow> bool" where
  "is_tile v = (case v of Str k \<Rightarrow> k \<in> set (map fst TILE_COLORS) | _ \<Rightarrow> False)"

definition is_static :: "val \<Rightarrow> bool" where
  "is_static v \<longleftrightarrow> is_tile v \<and> v \<noteq> TILE_AIR \<and> v \<noteq> TILE_LAND \<and> v \<noteq> TILE_WATER"

text \<open>The conditions of the vertical and of the horizontal rule, as the source tests them.\<close>

definition vertical :: "val \<Rightarrow> val \<Rightarrow> bool" where
  "vertical tile below \<longleftrightarrow>
     (tile = TILE_LAND \<and> (below = TILE_AIR \<or> below = TILE_WATER)) \<or>
     (tile = TILE_WATER \<and> below = TILE_AIR)"

definition horizontal :: "bool \<Rightarrow> val \<Rightarrow> val \<Rightarrow> val \<Rightarrow> val \<Rightarrow> bool" where
  "horizontal c tile below before belowBefore \<longleftrightarrow>
     (c \<and> tile = TILE_WATER \<and> before = TILE_AIR \<and> below \<noteq> TILE_AIR) \<or>
     (\<not> c \<and> tile = TILE_AIR \<and> before = TILE_WATER \<and> belowBefore \<noteq> TILE_AIR)"

text \<open>Records inside an \<open>L\<close> by \<open>M\<close> grid, and the grid a list of such records
  leaves behind when each is stored in turn.\<close>

definition in_bounds :: "nat \<Rightarrow> nat \<Rightarrow> redraw list \<Rightarrow> bool" where
  "in_bounds L M rs \<longleftrightarrow> (\<forall>r \<in> set rs. rx r < L \<and> ry r < M)"

definition apply_redraw :: "redraw list \<Rightarrow> grid \<Rightarrow> grid" where
  "apply_redraw rs g = foldl (\<lambda>g r. put g (rx r) (ry r) (rvalue r)) g rs"

text \<open>The value of the last record of \<open>rs\<close> that addresses \<open>(x, y)\<close>, if any does.\<close>

definition last_write :: "redraw list \<Rightarrow> nat \<Rightarrow> nat \<Rightarrow> val option" where
  "last_write rs x y =
     (let hits = filter (\<lambda>r. rx r = x \<and> ry r = y) rs
      in if hits = [] then None else Some (rvalue (last hits)))"

text \<open>
  What holds between two visits of a scan that started on the grid \<open>g0\<close>: the grid keeps
  its shape; every record is in bounds and carries air, land or water; no two records
  address one cell; the records, applied to \<open>g0\<close>, permute its values; every record
  has a partner with which it exchanges the values of \<open>g0\<close>; and a cell holds
  \<^verbatim>\<open>-1\<close> when a record addresses it and its value in \<open>g0\<close> otherwise.
\<close>

definition inv :: "nat \<Rightarrow> nat \<Rightarrow> grid \<Rightarrow> scan \<Rightarrow> bool" where
  "inv L M g0 s \<longleftrightarrow>
     rect L M (cells s) \<and> in_bounds L M (tilesToRedraw s) \<and>
     distinct (map coord (tilesToRedraw s)) \<and>
     (\<forall>r \<in> set (tilesToRedraw s). movable (rvalue r)) \<and>
     mset (concat (apply_redraw (tilesToRedraw s) g0)) = mset (concat g0) \<and>
     (\<forall>r \<in> set (tilesToRedraw s). \<exists>r' \<in> set (tilesToRedraw s).
        coord r' \<noteq> coord r \<and> rvalue r = g0 ! rx r' ! ry r' \<and> rvalue r' = g0 ! rx r ! ry r) \<and>
     (\<forall>x<L. \<forall>y<M.
        if (x, y) \<in> coord ` set (tilesToRedraw s)
        then cells s ! x ! y = Num (- 1) \<and> movable (g0 ! x ! y)
        else cells s ! x ! y = g0 ! x ! y)"

text \<open>
  A grid access is in range when both indices are; \<open>is_lookup\<close> tells the reads
  from the stores.
\<close>

fun in_range :: "nat \<Rightarrow> nat \<Rightarrow> access \<Rightarrow> bool" where
  "in_range L M (Lookup x y) = (x < L \<and> y < M)"
| "in_range L M (Store x y) = (x < L \<and> y < M)"

fun is_lookup :: "access \<Rightarrow> bool" where
  "is_lookup (Lookup x y) = True"
| "is_lookup (Store x y) = False"

text \<open>
  The state of the scan when its loops reach the cell \<open>(x, y)\<close>: the columns before
  \<open>x\<close> are done, and the rows before \<open>y\<close> of column \<open>x\<close>. The whole scan is
  this prefix, then the visit of \<open>(x, y)\<close>, then the rest of the two loops
  (\<open>scan_grid_split\<close> below).
\<close>

definition scan_until :: "nat \<Rightarrow> (nat \<Rightarrow> nat \<Rightarrow> bool) \<Rightarrow> nat \<Rightarrow> nat \<Rightarrow> grid \<Rightarrow> scan option" where
  "scan_until M flip x y g = do {
     s \<leftarrow> for_each (\<lambda>x. for_each (visit M flip x) [0..<M]) [0..<x] (scan_start g);
     for_each (visit M flip x) [0..<y] s
   }"

text \<open>
  \<open>untouched\<close>: the scan, so far, has no record for \<open>(x, y)\<close> nor for the cell below
  it. \<open>extends\<close>: the records of the scan begin with the list \<open>rs\<close>.
\<close>

definition untouched :: "nat \<Rightarrow> nat \<Rightarrow> grid \<Rightarrow> nat \<Rightarrow> nat \<Rightarrow> scan \<Rightarrow> bool" where
  "untouched L M g0 x y s \<longleftrightarrow>
     inv L M g0 s \<and> (x, y) \<notin> coord ` set (tilesToRedraw s) \<and>
     (x, y + 1) \<notin> coord ` set (tilesToRedraw s)"

definition extends :: "nat \<Rightarrow> nat \<Rightarrow> grid \<Rightarrow> redraw list \<Rightarrow> scan \<Rightarrow> bool" where
  "extends L M g0 rs s \<longleftrightarrow> inv L M g0 s \<and> (\<exists>post. tilesToRedraw s = rs @ post)"

section \<open>Concrete inputs\<close>

text \<open>Coin flips that always come up 1, and that always come up 0.\<close>

definition heads :: "nat \<Rightarrow> nat \<Rightarrow> bool" where
  "heads x y = True"

definition tails :: "nat \<Rightarrow> nat \<Rightarrow> bool" where
  "tails x y = False"

text \<open>A 2 by 2 grid: land over air in column 0, a static tile over air in column 1.\<close>

definition scenarioA :: sand where
  "scenarioA =
     \<lparr>tileSize = 10, horizontalTileCount = 2, verticalTileCount = 2,
      tiles = [[TILE_LAND, TILE_AIR], [TILE_STATIC, TILE_AIR]],
      isDrawing = False, currentTileType = ''s''\<rparr>"

text \<open>A 2 by 2 grid: air and water side by side on a static floor, and the engine
  that holds it.\<close>

definition basin :: grid where
  "basin = [[TILE_AIR, TILE_STATIC], [TILE_WATER, TILE_STATIC]]"

definition pool :: sand where
  "pool = scenarioA\<lparr>tiles := basin\<rparr>"

text \<open>A redraw list that addresses the cell \<open>(0, 0)\<close> twice.\<close>

definition repaint :: "redraw list" where
  "repaint = [Redraw 0 0 TILE_WATER, Redraw 1 1 TILE_LAND, Redraw 0 0 TILE_STATIC]"

text \<open>
  A single cell; water with air below it and air to its left and below-left; and the
  same water with land on top of it, in a grid of three rows.
\<close>

definition single :: grid where
  "single = [[TILE_AIR]]"

definition scenarioB :: grid where
  "scenarioB = [[TILE_AIR, TILE_AIR], [TILE_WATER, TILE_AIR]]"

definition capped :: grid where
  "capped = [[TILE_AIR, TILE_AIR, TILE_AIR], [TILE_LAND, TILE_WATER, TILE_AIR]]"

section \<open>Grid lemmas\<close>

lemma rect_iff: "rect L M g \<longleftrightarrow> length g = L \<and> (\<forall>x<L. length (g ! x) = M)"
  by (auto simp: rect_def all_set_conv_all_nth)

lemma rect_col: "rect L M g \<Longrightarrow> x < L \<Longrightarrow> length (g ! x) = M"
  by (simp add: rect_iff)

lemma rect_len: "rect L M g \<Longrightarrow> length g = L"
  by (simp add: rect_iff)

lemma rect_put: "rect L M g \<Longrightarrow> rect L M (put g x y v)"
  by (cases "x < length g") (auto simp: rect_iff put_def nth_list_update)

lemma put_nth:
  "rect L M g \<Longrightarrow> x < L \<Longrightarrow> y < M \<Longrightarrow> x' < L \<Longrightarrow> y' < M \<Longrightarrow>
   put g x y v ! x' ! y' = (if x' = x \<and> y' = y then v else g ! x' ! y')"
  by (cases "x < length g") (auto simp: rect_iff put_def nth_list_update)

lemma rd_in: "rect L M g \<Longrightarrow> x < L \<Longrightarrow> y < M \<Longrightarrow> rd g x y = Some (g ! x ! y)"
  by (simp add: rd_def rect_iff)

lemma rd_past: "rect L M g \<Longrightarrow> x < L \<Longrightarrow> rd g x M = Some Undefined"
  by (simp add: rd_def rect_iff)

lemma wr_in: "rect L M g \<Longrightarrow> x < L \<Longrightarrow> y < M \<Longrightarrow> wr g x y v = Some (put g x y v)"
  by (simp add: wr_def rect_iff put_def array_set_def)

lemma mset_concat_update:
  "x < length g \<Longrightarrow> mset (concat (g[x := c])) + mset (g ! x) = mset (concat g) + mset c"
proof (induction g arbitrary: x)
  case Nil
  then show ?case by simp
next
  case (Cons a g)
  then show ?case by (cases x) auto
qed

lemma mset_put:
  assumes "x < length g" "y < length (g ! x)"
  shows "mset (concat (put g x y v)) + {#g ! x ! y#} = mset (concat g) + {#v#}"
proof -
  have a: "mset (concat (put g x y v)) + mset (g ! x) = mset (concat g) + mset ((g ! x)[y := v])"
    unfolding put_def using assms(1) by (rule mset_concat_update)
  have b: "mset ((g ! x)[y := v]) + {#g ! x ! y#} = mset (g ! x) + {#v#}"
    using assms(2) by (simp add: mset_update)
  have "mset (concat (put g x y v)) + {#g ! x ! y#} + mset (g ! x)
        = mset (concat g) + (mset ((g ! x)[y := v]) + {#g ! x ! y#})"
    using a by (simp add: ac_simps)
  also have "\<dots> = mset (concat g) + {#v#} + mset (g ! x)"
    using b by (simp add: ac_simps)
  finally show ?thesis by simp
qed

lemma mset_swap:
  assumes r: "rect L M g" and b: "x1 < L" "y1 < M" "x2 < L" "y2 < M"
    and ne: "(x1, y1) \<noteq> (x2, y2)"
  shows "mset (concat (put (put g x1 y1 (g ! x2 ! y2)) x2 y2 (g ! x1 ! y1))) = mset (concat g)"
proof -
  let ?g1 = "put g x1 y1 (g ! x2 ! y2)"
  have r1: "rect L M ?g1" using r by (rule rect_put)
  have e1: "mset (concat ?g1) + {#g ! x1 ! y1#} = mset (concat g) + {#g ! x2 ! y2#}"
    using r b by (intro mset_put) (simp_all add: rect_iff)
  have c2: "?g1 ! x2 ! y2 = g ! x2 ! y2"
    using put_nth[OF r b(1,2) b(3,4)] ne by auto
  have e2: "mset (concat (put ?g1 x2 y2 (g ! x1 ! y1))) + {#?g1 ! x2 ! y2#}
            = mset (concat ?g1) + {#g ! x1 ! y1#}"
    using r1 b by (intro mset_put) (simp_all add: rect_iff)
  from e1 e2 c2 show ?thesis by simp
qed

lemma lookup_in:
  "rect L M (cells s) \<Longrightarrow> x < L \<Longrightarrow> y < M \<Longrightarrow>
   lookup x y s = Some (cells s ! x ! y, s\<lparr>accesses := accesses s @ [Lookup x y]\<rparr>)"
  by (simp add: lookup_def rd_in)

lemma lookup_past:
  "rect L M (cells s) \<Longrightarrow> x < L \<Longrightarrow>
   lookup x M s = Some (Undefined, s\<lparr>accesses := accesses s @ [Lookup x M]\<rparr>)"
  by (simp add: lookup_def rd_past)

lemma store_in:
  "rect L M (cells s) \<Longrightarrow> x < L \<Longrightarrow> y < M \<Longrightarrow>
   store x y v s = Some (s\<lparr>cells := put (cells s) x y v, accesses := accesses s @ [Store x y]\<rparr>)"
  by (simp add: store_def wr_in)

lemma tile_neq [simp]:
  "TILE_AIR \<noteq> TILE_LAND" "TILE_AIR \<noteq> TILE_WATER" "TILE_LAND \<noteq> TILE_WATER"
  "TILE_LAND \<noteq> TILE_AIR" "TILE_WATER \<noteq> TILE_AIR" "TILE_WATER \<noteq> TILE_LAND"
  "TILE_AIR \<noteq> Num n" "TILE_LAND \<noteq> Num n" "TILE_WATER \<noteq> Num n"
  "TILE_AIR \<noteq> Undefined" "TILE_LAND \<noteq> Undefined" "TILE_WATER \<noteq> Undefined"
  by (simp_all add: TILE_AIR_def TILE_LAND_def TILE_WATER_def)

lemma visit_bottom:
  assumes "rect L M (cells s)" "x < L" "y < M" "\<not> y < M - 1"
  shows "visit M flip x y s = Some (s\<lparr>accesses := accesses s @ [Lookup x y, Lookup x (y + 1)]\<rparr>)"
proof -
  have "y + 1 = M" using assms by arith
  then show ?thesis
    using assms lookup_past[of L M "s\<lparr>accesses := accesses s @ [Lookup x y]\<rparr>" x]
    by (simp add: visit_def lookup_in)
qed

lemma visit_vertical:
  assumes "rect L M (cells s)" "x < L" "y < M - 1"
    and "vertical (cells s ! x ! y) (cells s ! x ! (y + 1))"
  shows "\<exists>s'. visit M flip x y s = Some s' \<and>
      cells s' = put (put (cells s) x y (Num (- 1))) x (y + 1) (Num (- 1)) \<and>
      tilesToRedraw s' = tilesToRedraw s @
         [Redraw x y (cells s ! x ! (y + 1)), Redraw x (y + 1) (cells s ! x ! y)] \<and>
      accesses s' = accesses s @
         [Lookup x y, Lookup x (y + 1), Store x y, Store x (y + 1)] @
         (if 0 < x then [Lookup (x - 1) y, Lookup (x - 1) (y + 1)] else [])"
proof -
  have b: "y < M" "y + 1 < M" "Suc y < M" using assms(3) by arith+
  note r = assms(1)
  have r': "rect L M (put (put (cells s) x y (Num (- 1))) x (Suc y) (Num (- 1)))"
    "rect L M (put (cells s) x y (Num (- 1)))"
    using r by (simp_all add: rect_put)
  show ?thesis
  proof (cases "x > 0")
    case False
    then show ?thesis
      using assms b r'
      by (auto simp: visit_def lookup_in store_in push2_def vertical_def)
  next
    case True
    then have xb: "x - 1 < L" "x - Suc 0 < L" using assms(2) by arith+
    show ?thesis
      using assms b r' xb True
      by (auto simp: visit_def lookup_in store_in push2_def vertical_def)
  qed
qed

lemma visit_horizontal:
  assumes "rect L M (cells s)" "x < L" "y < M - 1" "0 < x"
    and "\<not> vertical (cells s ! x ! y) (cells s ! x ! (y + 1))"
    and "horizontal (flip x y) (cells s ! x ! y) (cells s ! x ! (y + 1))
           (cells s ! (x - 1) ! y) (cells s ! (x - 1) ! (y + 1))"
  shows "\<exists>s'. visit M flip x y s = Some s' \<and>
      cells s' = put (put (cells s) x y (Num (- 1))) (x - 1) y (Num (- 1)) \<and>
      tilesToRedraw s' = tilesToRedraw s @
         [Redraw x y (cells s ! (x - 1) ! y), Redraw (x - 1) y (cells s ! x ! y)] \<and>
      accesses s' = accesses s @
         [Lookup x y, Lookup x (y + 1), Lookup (x - 1) y, Lookup (x - 1) (y + 1),
          Store x y, Store (x - 1) y]"
proof -
  have b: "y < M" "y + 1 < M" "Suc y < M" "x - 1 < L" "x - Suc 0 < L"
    using assms(2,3) by arith+
  have r': "rect L M (put (cells s) x y (Num (- 1)))"
    using assms(1) by (simp add: rect_put)
  show ?thesis
    using assms b r'
    by (auto simp: visit_def lookup_in store_in push2_def vertical_def horizontal_def)
qed

lemma visit_idle:
  assumes "rect L M (cells s)" "x < L" "y < M - 1"
    and "\<not> vertical (cells s ! x ! y) (cells s ! x ! (y + 1))"
    and "0 < x \<longrightarrow> \<not> horizontal (flip x y) (cells s ! x ! y) (cells s ! x ! (y + 1))
           (cells s ! (x - 1) ! y) (cells s ! (x - 1) ! (y + 1))"
  shows "\<exists>s'. visit M flip x y s = Some s' \<and> cells s' = cells s \<and>
      tilesToRedraw s' = tilesToRedraw s \<and>
      accesses s' = accesses s @ [Lookup x y, Lookup x (y + 1)] @
         (if 0 < x then [Lookup (x - 1) y, Lookup (x - 1) (y + 1)] else [])"
proof -
  have b: "y < M" "y + 1 < M" "Suc y < M" using assms(2,3) by arith+
  show ?thesis
  proof (cases "0 < x")
    case False
    then show ?thesis using assms b
      by (auto simp: visit_def lookup_in vertical_def)
  next
    case True
    then have xb: "x - 1 < L" "x - Suc 0 < L" using assms(2) by arith+
    show ?thesis using assms b xb True
      by (auto simp: visit_def lookup_in vertical_def horizontal_def)
  qed
qed

lemma vertical_not_horizontal:
  "vertical t b \<Longrightarrow> \<not> horizontal c t b' bf bb \<or> b' \<noteq> b"
  by (auto simp: vertical_def horizontal_def)

lemma visit_effect:
  assumes r: "rect L M (cells s)" and x: "x < L" and y: "y < M"
  shows "\<exists>s'. visit M flip x y s = Some s' \<and>
    ((cells s' = cells s \<and> tilesToRedraw s' = tilesToRedraw s) \<or>
     (\<exists>x2 y2. x2 < L \<and> y2 < M \<and> (x2, y2) \<noteq> (x, y) \<and>
        movable (cells s ! x ! y) \<and> movable (cells s ! x2 ! y2) \<and>
        cells s' = put (put (cells s) x y (Num (- 1))) x2 y2 (Num (- 1)) \<and>
        tilesToRedraw s' = tilesToRedraw s @
          [Redraw x y (cells s ! x2 ! y2), Redraw x2 y2 (cells s ! x ! y)]))"
proof (cases "y < M - 1")
  case False
  then show ?thesis using visit_bottom[OF r x y False, of flip] by simp
next
  case yb: True
  show ?thesis
  proof (cases "vertical (cells s ! x ! y) (cells s ! x ! (y + 1))")
    case True
    from visit_vertical[OF r x yb True, of flip] obtain s' where
      s': "visit M flip x y s = Some s'"
      "cells s' = put (put (cells s) x y (Num (- 1))) x (y + 1) (Num (- 1))"
      "tilesToRedraw s' = tilesToRedraw s @
         [Redraw x y (cells s ! x ! (y + 1)), Redraw x (y + 1) (cells s ! x ! y)]"
      by blast
    have m: "movable (cells s ! x ! y)" "movable (cells s ! x ! (y + 1))"
      using True by (auto simp: vertical_def movable_def)
    have "y + 1 < M" using yb by arith
    with s' m x show ?thesis by (intro exI[of _ s']) auto
  next
    case nv: False
    show ?thesis
    proof (cases "0 < x \<and> horizontal (flip x y) (cells s ! x ! y) (cells s ! x ! (y + 1))
           (cells s ! (x - 1) ! y) (cells s ! (x - 1) ! (y + 1))")
      case True
      then have x0: "0 < x" and h: "horizontal (flip x y) (cells s ! x ! y) (cells s ! x ! (y + 1))
           (cells s ! (x - 1) ! y) (cells s ! (x - 1) ! (y + 1))" by simp_all
      from visit_horizontal[where flip=flip, OF r x yb x0 nv h] obtain s' where
        s': "visit M flip x y s = Some s'"
        "cells s' = put (put (cells s) x y (Num (- 1))) (x - 1) y (Num (- 1))"
        "tilesToRedraw s' = tilesToRedraw s @
           [Redraw x y (cells s ! (x - 1) ! y), Redraw (x - 1) y (cells s ! x ! y)]"
        by blast
      have m: "movable (cells s ! x ! y)" "movable (cells s ! (x - 1) ! y)"
        using h by (auto simp: horizontal_def movable_def)
      have "x - 1 < L" "x - 1 \<noteq> x" using x x0 by arith+
      with s' m y show ?thesis by (intro exI[of _ s']) auto
    next
      case False
      then show ?thesis using visit_idle[OF r x yb nv, of flip] by auto
    qed
  qed
qed

lemma apply_redraw_Nil [simp]: "apply_redraw [] g = g"
  by (simp add: apply_redraw_def)

lemma apply_redraw_snoc:
  "apply_redraw (rs @ [r]) g = put (apply_redraw rs g) (rx r) (ry r) (rvalue r)"
  by (simp add: apply_redraw_def)

lemma apply_redraw_Cons:
  "apply_redraw (r # rs) g = apply_redraw rs (put g (rx r) (ry r) (rvalue r))"
  by (simp add: apply_redraw_def)

lemma rect_apply_redraw: "rect L M g \<Longrightarrow> rect L M (apply_redraw rs g)"
  by (induction rs rule: rev_induct) (simp_all add: apply_redraw_snoc rect_put)

lemma for_each_wr:
  "rect L M g \<Longrightarrow> in_bounds L M rs \<Longrightarrow>
   for_each (\<lambda>tile g. wr g (rx tile) (ry tile) (rvalue tile)) rs g = Some (apply_redraw rs g)"
proof (induction rs arbitrary: g)
  case Nil
  then show ?case by simp
next
  case (Cons r rs)
  then show ?case
    by (simp add: in_bounds_def wr_in apply_redraw_Cons rect_put)
qed

lemma apply_redraw_nth:
  assumes "rect L M g" "in_bounds L M rs" "x < L" "y < M"
  shows "apply_redraw rs g ! x ! y =
     (let hits = filter (\<lambda>r. rx r = x \<and> ry r = y) rs
      in if hits = [] then g ! x ! y else rvalue (last hits))"
  using assms(2)
proof (induction rs rule: rev_induct)
  case Nil
  then show ?case by simp
next
  case (snoc r rs)
  then have ib: "in_bounds L M rs" "rx r < L" "ry r < M"
    by (simp_all add: in_bounds_def)
  have "put (apply_redraw rs g) (rx r) (ry r) (rvalue r) ! x ! y =
     (if x = rx r \<and> y = ry r then rvalue r else apply_redraw rs g ! x ! y)"
    using rect_apply_redraw[OF assms(1), of rs] ib(2,3) assms(3,4) by (rule put_nth)
  then show ?case
    using snoc.IH[OF ib(1)] by (auto simp: apply_redraw_snoc Let_def)
qed

lemma apply_redraw_other:
  assumes "rect L M g" "in_bounds L M rs" "x < L" "y < M" "(x, y) \<notin> coord ` set rs"
  shows "apply_redraw rs g ! x ! y = g ! x ! y"
proof -
  have "filter (\<lambda>r. rx r = x \<and> ry r = y) rs = []"
    using assms(5) by (auto simp: filter_empty_conv coord_def image_iff)
  then show ?thesis using apply_redraw_nth[OF assms(1-4)] by simp
qed

lemma grid_eqI:
  assumes "rect L M g" "rect L M h" "\<And>x y. x < L \<Longrightarrow> y < M \<Longrightarrow> g ! x ! y = h ! x ! y"
  shows "g = h"
proof (rule nth_equalityI)
  show "length g = length h" using assms(1,2) by (simp add: rect_iff)
next
  fix x assume "x < length g"
  then have x: "x < L" using assms(1) by (simp add: rect_iff)
  show "g ! x = h ! x"
  proof (rule nth_equalityI)
    show "length (g ! x) = length (h ! x)" using assms(1,2) x by (simp add: rect_iff)
  next
    fix y assume "y < length (g ! x)"
    then have "y < M" using assms(1) x by (simp add: rect_iff)
    then show "g ! x ! y = h ! x ! y" using x by (rule assms(3)[rotated])
  qed
qed

lemma apply_redraw_agree:
  assumes "rect L M g" "rect L M h" "in_bounds L M rs"
    and "\<And>x y. x < L \<Longrightarrow> y < M \<Longrightarrow> (x, y) \<notin> coord ` set rs \<Longrightarrow> g ! x ! y = h ! x ! y"
  shows "apply_redraw rs g = apply_redraw rs h"
proof (rule grid_eqI)
  show "rect L M (apply_redraw rs g)" using assms(1) by (rule rect_apply_redraw)
  show "rect L M (apply_redraw rs h)" using assms(2) by (rule rect_apply_redraw)
next
  fix x y assume b: "x < L" "y < M"
  show "apply_redraw rs g ! x ! y = apply_redraw rs h ! x ! y"
  proof (cases "(x, y) \<in> coord ` set rs")
    case True
    then have "filter (\<lambda>r. rx r = x \<and> ry r = y) rs \<noteq> []"
      by (auto simp: filter_empty_conv coord_def image_iff)
    then show ?thesis
      using apply_redraw_nth[OF assms(1,3) b] apply_redraw_nth[OF assms(2,3) b] by simp
  next
    case False
    then show ?thesis
      using apply_redraw_other[OF assms(1,3) b] apply_redraw_other[OF assms(2,3) b] assms(4)[OF b]
      by simp
  qed
qed

lemma movable_not_mark: "movable v \<Longrightarrow> v \<noteq> Num (- 1)"
  by (auto simp: movable_def TILE_AIR_def TILE_LAND_def TILE_WATER_def)

lemma inv_init: "rect L M g0 \<Longrightarrow> inv L M g0 (scan_start g0)"
  by (simp add: inv_def in_bounds_def scan_start_def)

lemma inv_fresh:
  assumes "inv L M g0 s" "x < L" "y < M" "movable (cells s ! x ! y)"
  shows "(x, y) \<notin> coord ` set (tilesToRedraw s)" "cells s ! x ! y = g0 ! x ! y"
proof -
  from assms(1) have c: "if (x, y) \<in> coord ` set (tilesToRedraw s)
        then cells s ! x ! y = Num (- 1) \<and> movable (g0 ! x ! y)
        else cells s ! x ! y = g0 ! x ! y"
    using assms(2,3) unfolding inv_def by blast
  show "(x, y) \<notin> coord ` set (tilesToRedraw s)"
    using c movable_not_mark[OF assms(4)] by (auto split: if_splits)
  then show "cells s ! x ! y = g0 ! x ! y" using c by simp
qed

lemma inv_swap:
  assumes i: "inv L M g0 s" and r0: "rect L M g0"
    and b: "x1 < L" "y1 < M" "x2 < L" "y2 < M" and ne: "(x2, y2) \<noteq> (x1, y1)"
    and m: "movable (cells s ! x1 ! y1)" "movable (cells s ! x2 ! y2)"
    and c': "cells s' = put (put (cells s) x1 y1 (Num (- 1))) x2 y2 (Num (- 1))"
    and t': "tilesToRedraw s' = tilesToRedraw s @
          [Redraw x1 y1 (cells s ! x2 ! y2), Redraw x2 y2 (cells s ! x1 ! y1)]"
  shows "inv L M g0 s'"
proof -
  let ?rs = "tilesToRedraw s"
  let ?h = "apply_redraw ?rs g0"
  have r: "rect L M (cells s)" and ib: "in_bounds L M ?rs" and d: "distinct (map coord ?rs)"
    and mv: "\<forall>r \<in> set ?rs. movable (rvalue r)"
    and ms: "mset (concat ?h) = mset (concat g0)"
    and pr: "\<forall>r \<in> set ?rs. \<exists>r' \<in> set ?rs.
        coord r' \<noteq> coord r \<and> rvalue r = g0 ! rx r' ! ry r' \<and> rvalue r' = g0 ! rx r ! ry r"
    and cc: "\<And>x y. x < L \<Longrightarrow> y < M \<Longrightarrow>
        (if (x, y) \<in> coord ` set ?rs
         then cells s ! x ! y = Num (- 1) \<and> movable (g0 ! x ! y)
         else cells s ! x ! y = g0 ! x ! y)"
    using i unfolding inv_def by blast+
  have f1: "(x1, y1) \<notin> coord ` set ?rs" "cells s ! x1 ! y1 = g0 ! x1 ! y1"
    using inv_fresh[OF i b(1,2) m(1)] by simp_all
  have f2: "(x2, y2) \<notin> coord ` set ?rs" "cells s ! x2 ! y2 = g0 ! x2 ! y2"
    using inv_fresh[OF i b(3,4) m(2)] by simp_all
  have rh: "rect L M ?h" using r0 by (rule rect_apply_redraw)
  have h1: "?h ! x1 ! y1 = cells s ! x1 ! y1"
    using apply_redraw_other[OF r0 ib b(1,2) f1(1)] f1(2) by simp
  have h2: "?h ! x2 ! y2 = cells s ! x2 ! y2"
    using apply_redraw_other[OF r0 ib b(3,4) f2(1)] f2(2) by simp
  have set': "coord ` set (tilesToRedraw s') = insert (x1, y1) (insert (x2, y2) (coord ` set ?rs))"
    by (auto simp: t' coord_def)
  have "rect L M (cells s')" using r by (simp add: c' rect_put)
  moreover have "in_bounds L M (tilesToRedraw s')"
    using ib b by (simp add: t' in_bounds_def)
  moreover have "distinct (map coord (tilesToRedraw s'))"
    using d f1(1) f2(1) ne by (auto simp: t' coord_def)
  moreover have "\<forall>r \<in> set (tilesToRedraw s'). movable (rvalue r)"
    using mv m by (auto simp: t')
  moreover have "mset (concat (apply_redraw (tilesToRedraw s') g0)) = mset (concat g0)"
  proof -
    have "apply_redraw (tilesToRedraw s') g0 =
        put (put ?h x1 y1 (?h ! x2 ! y2)) x2 y2 (?h ! x1 ! y1)"
      using apply_redraw_snoc[of "?rs @ [Redraw x1 y1 (cells s ! x2 ! y2)]"
                "Redraw x2 y2 (cells s ! x1 ! y1)" g0]
      by (simp add: t' apply_redraw_snoc h1 h2)
    moreover have "(x1, y1) \<noteq> (x2, y2)" using ne by auto
    ultimately show ?thesis using mset_swap[OF rh b(1,2) b(3,4)] ms by simp
  qed
  moreover have "\<forall>r \<in> set (tilesToRedraw s'). \<exists>r' \<in> set (tilesToRedraw s').
        coord r' \<noteq> coord r \<and> rvalue r = g0 ! rx r' ! ry r' \<and> rvalue r' = g0 ! rx r ! ry r"
  proof
    fix r assume "r \<in> set (tilesToRedraw s')"
    then consider "r \<in> set ?rs" | "r = Redraw x1 y1 (cells s ! x2 ! y2)"
      | "r = Redraw x2 y2 (cells s ! x1 ! y1)"
      by (auto simp: t')
    then show "\<exists>r' \<in> set (tilesToRedraw s').
        coord r' \<noteq> coord r \<and> rvalue r = g0 ! rx r' ! ry r' \<and> rvalue r' = g0 ! rx r ! ry r"
    proof cases
      case 1
      with pr obtain r' where "r' \<in> set ?rs" "coord r' \<noteq> coord r"
        "rvalue r = g0 ! rx r' ! ry r'" "rvalue r' = g0 ! rx r ! ry r" by blast
      then show ?thesis by (auto simp: t')
    next
      case 2
      show ?thesis
        by (rule bexI[of _ "Redraw x2 y2 (cells s ! x1 ! y1)"])
           (use 2 ne f1 f2 in \<open>auto simp: t' coord_def\<close>)
    next
      case 3
      show ?thesis
        by (rule bexI[of _ "Redraw x1 y1 (cells s ! x2 ! y2)"])
           (use 3 ne f1 f2 in \<open>auto simp: t' coord_def\<close>)
    qed
  qed
  moreover have "\<forall>x<L. \<forall>y<M.
        if (x, y) \<in> coord ` set (tilesToRedraw s')
        then cells s' ! x ! y = Num (- 1) \<and> movable (g0 ! x ! y)
        else cells s' ! x ! y = g0 ! x ! y"
  proof (intro allI impI)
    fix x y assume xy: "x < L" "y < M"
    have r1: "rect L M (put (cells s) x1 y1 (Num (- 1)))" using r by (rule rect_put)
    have a1: "put (cells s) x1 y1 (Num (- 1)) ! x ! y =
        (if x = x1 \<and> y = y1 then Num (- 1) else cells s ! x ! y)"
      by (rule put_nth[OF r b(1,2) xy])
    have a2: "cells s' ! x ! y =
        (if x = x2 \<and> y = y2 then Num (- 1) else put (cells s) x1 y1 (Num (- 1)) ! x ! y)"
      unfolding c' by (rule put_nth[OF r1 b(3,4) xy])
    have v: "cells s' ! x ! y =
        (if x = x2 \<and> y = y2 then Num (- 1)
         else if x = x1 \<and> y = y1 then Num (- 1) else cells s ! x ! y)"
      unfolding a2 a1 by (rule refl)
    show "if (x, y) \<in> coord ` set (tilesToRedraw s')
        then cells s' ! x ! y = Num (- 1) \<and> movable (g0 ! x ! y)
        else cells s' ! x ! y = g0 ! x ! y"
      using cc[OF xy] v m f1 f2 by (auto simp: set')
  qed
  ultimately show ?thesis unfolding inv_def by blast
qed

lemma inv_visit:
  assumes i: "inv L M g0 s" and r0: "rect L M g0" and x: "x < L" and y: "y < M"
  shows "\<exists>s'. visit M flip x y s = Some s' \<and> inv L M g0 s'"
proof -
  have r: "rect L M (cells s)" using i by (simp add: inv_def)
  from visit_effect[OF r x y, of flip] obtain s' where
    v: "visit M flip x y s = Some s'" and
    e: "(cells s' = cells s \<and> tilesToRedraw s' = tilesToRedraw s) \<or>
     (\<exists>x2 y2. x2 < L \<and> y2 < M \<and> (x2, y2) \<noteq> (x, y) \<and>
        movable (cells s ! x ! y) \<and> movable (cells s ! x2 ! y2) \<and>
        cells s' = put (put (cells s) x y (Num (- 1))) x2 y2 (Num (- 1)) \<and>
        tilesToRedraw s' = tilesToRedraw s @
          [Redraw x y (cells s ! x2 ! y2), Redraw x2 y2 (cells s ! x ! y)])"
    by blast
  from e have "inv L M g0 s'"
  proof
    assume "cells s' = cells s \<and> tilesToRedraw s' = tilesToRedraw s"
    then show ?thesis using i by (simp add: inv_def)
  next
    assume "\<exists>x2 y2. x2 < L \<and> y2 < M \<and> (x2, y2) \<noteq> (x, y) \<and>
        movable (cells s ! x ! y) \<and> movable (cells s ! x2 ! y2) \<and>
        cells s' = put (put (cells s) x y (Num (- 1))) x2 y2 (Num (- 1)) \<and>
        tilesToRedraw s' = tilesToRedraw s @
          [Redraw x y (cells s ! x2 ! y2), Redraw x2 y2 (cells s ! x ! y)]"
    then obtain x2 y2 where "x2 < L" "y2 < M" "(x2, y2) \<noteq> (x, y)"
        "movable (cells s ! x ! y)" "movable (cells s ! x2 ! y2)"
        "cells s' = put (put (cells s) x y (Num (- 1))) x2 y2 (Num (- 1))"
        "tilesToRedraw s' = tilesToRedraw s @
          [Redraw x y (cells s ! x2 ! y2), Redraw x2 y2 (cells s ! x ! y)]"
      by blast
    then show ?thesis using inv_swap[OF i r0 x y] by blast
  qed
  with v show ?thesis by blast
qed

lemma for_each_invariant:
  assumes "P s" and "\<And>i s. i \<in> set is \<Longrightarrow> P s \<Longrightarrow> \<exists>s'. body i s = Some s' \<and> P s'"
  shows "\<exists>s'. for_each body is s = Some s' \<and> P s'"
  using assms
proof (induction "is" arbitrary: s)
  case Nil
  then show ?case by simp
next
  case (Cons i "is")
  from Cons.prems(2)[of i s] Cons.prems(1) obtain s1 where
    s1: "body i s = Some s1" "P s1" by auto
  from Cons.IH[OF s1(2)] Cons.prems(2) obtain s' where
    "for_each body is s1 = Some s'" "P s'" by auto
  with s1 show ?case by simp
qed

lemma inv_column:
  assumes "inv L M g0 s" "rect L M g0" "x < L"
  shows "\<exists>s'. for_each (visit M flip x) [0..<M] s = Some s' \<and> inv L M g0 s'"
  using assms(1)
proof (rule for_each_invariant)
  fix y s assume "y \<in> set [0..<M]" "inv L M g0 s"
  then show "\<exists>s'. visit M flip x y s = Some s' \<and> inv L M g0 s'"
    using inv_visit[OF _ assms(2,3), of s y flip] by simp
qed

lemma inv_scan:
  assumes "rect L M g0"
  shows "\<exists>s. scan_grid L M flip g0 = Some s \<and> inv L M g0 s"
  unfolding scan_grid_def using inv_init[OF assms]
proof (rule for_each_invariant)
  fix x s assume "x \<in> set [0..<L]" "inv L M g0 s"
  then show "\<exists>s'. for_each (visit M flip x) [0..<M] s = Some s' \<and> inv L M g0 s'"
    using inv_column[OF _ assms, of s x flip] by simp
qed

lemma frame:
  assumes wf: "well_formed this"
  shows "\<exists>s. scan_grid (horizontalTileCount this) (verticalTileCount this) flip (tiles this) = Some s \<and>
     inv (horizontalTileCount this) (verticalTileCount this) (tiles this) s \<and>
     applyPhysics flip this = Some (tilesToRedraw s, this\<lparr>tiles := cells s\<rparr>) \<and>
     drawScreen (tilesToRedraw s) (this\<lparr>tiles := cells s\<rparr>) =
        Some (this\<lparr>tiles := apply_redraw (tilesToRedraw s) (tiles this)\<rparr>) \<and>
     render flip this = Some (this\<lparr>tiles := apply_redraw (tilesToRedraw s) (tiles this)\<rparr>)"
proof -
  let ?L = "horizontalTileCount this" and ?M = "verticalTileCount this" and ?g = "tiles this"
  have r0: "rect ?L ?M ?g" using wf by (simp add: well_formed_def)
  from inv_scan[OF r0, of flip] obtain s where
    s: "scan_grid ?L ?M flip ?g = Some s" and i: "inv ?L ?M ?g s" by blast
  have r: "rect ?L ?M (cells s)" and ib: "in_bounds ?L ?M (tilesToRedraw s)"
    and cc: "\<And>x y. x < ?L \<Longrightarrow> y < ?M \<Longrightarrow>
        (if (x, y) \<in> coord ` set (tilesToRedraw s)
         then cells s ! x ! y = Num (- 1) \<and> movable (?g ! x ! y)
         else cells s ! x ! y = ?g ! x ! y)"
    using i unfolding inv_def by blast+
  have a: "applyPhysics flip this = Some (tilesToRedraw s, this\<lparr>tiles := cells s\<rparr>)"
    by (simp add: applyPhysics_def s)
  have e: "apply_redraw (tilesToRedraw s) (cells s) = apply_redraw (tilesToRedraw s) ?g"
    using r r0 ib
  proof (rule apply_redraw_agree)
    fix x y assume "x < ?L" "y < ?M" "(x, y) \<notin> coord ` set (tilesToRedraw s)"
    then show "cells s ! x ! y = ?g ! x ! y" using cc[of x y] by simp
  qed
  have d: "drawScreen (tilesToRedraw s) (this\<lparr>tiles := cells s\<rparr>) =
        Some (this\<lparr>tiles := apply_redraw (tilesToRedraw s) ?g\<rparr>)"
    using for_each_wr[OF r ib] e by (simp add: drawScreen_def)
  have "render flip this = Some (this\<lparr>tiles := apply_redraw (tilesToRedraw s) ?g\<rparr>)"
    by (simp add: render_def a d)
  with s i a d show ?thesis by blast
qed

lemma filter_unique:
  "distinct (map coord rs) \<Longrightarrow> r \<in> set rs \<Longrightarrow>
   filter (\<lambda>q. rx q = rx r \<and> ry q = ry r) rs = [r]"
proof (induction rs)
  case Nil
  then show ?case by simp
next
  case (Cons a rs)
  show ?case
  proof (cases "a = r")
    case True
    have "filter (\<lambda>q. rx q = rx r \<and> ry q = ry r) rs = []"
      using Cons.prems(1) True by (auto simp: filter_empty_conv coord_def image_iff)
    then show ?thesis using True by simp
  next
    case False
    then have "r \<in> set rs" using Cons.prems(2) by simp
    moreover have "\<not> (rx a = rx r \<and> ry a = ry r)"
      using Cons.prems(1) \<open>r \<in> set rs\<close> by (auto simp: coord_def image_iff)
    ultimately show ?thesis using Cons by simp
  qed
qed

lemma apply_redraw_hit:
  assumes "rect L M g" "in_bounds L M rs" "distinct (map coord rs)" "r \<in> set rs"
  shows "apply_redraw rs g ! rx r ! ry r = rvalue r"
proof -
  have b: "rx r < L" "ry r < M" using assms(2,4) by (auto simp: in_bounds_def)
  show ?thesis
    using apply_redraw_nth[OF assms(1,2) b] filter_unique[OF assms(3,4)] by simp
qed

lemma list_all_concat: "list_all (list_all P) g \<longleftrightarrow> (\<forall>v \<in> set (concat g). P v)"
  by (auto simp: list_all_iff)

lemma cell_in_concat: "rect L M g \<Longrightarrow> x < L \<Longrightarrow> y < M \<Longrightarrow> g ! x ! y \<in> set (concat g)"
  by (auto simp: rect_iff intro!: bexI[of _ "g ! x"])

lemma is_static_not_movable: "is_static v \<Longrightarrow> \<not> movable v"
  by (simp add: is_static_def movable_def)

lemma is_tile_not_mark: "is_tile v \<Longrightarrow> v \<noteq> Num (- 1)"
  by (auto simp: is_tile_def)

lemma put2_nth:
  assumes r: "rect L M g" and b: "x1 < L" "y1 < M" "x2 < L" "y2 < M" "x < L" "y < M"
  shows "put (put g x1 y1 v) x2 y2 w ! x ! y =
     (if x = x2 \<and> y = y2 then w else if x = x1 \<and> y = y1 then v else g ! x ! y)"
proof -
  have r1: "rect L M (put g x1 y1 v)" using r by (rule rect_put)
  have a1: "put g x1 y1 v ! x ! y = (if x = x1 \<and> y = y1 then v else g ! x ! y)"
    by (rule put_nth[OF r b(1,2) b(5,6)])
  have a2: "put (put g x1 y1 v) x2 y2 w ! x ! y =
        (if x = x2 \<and> y = y2 then w else put g x1 y1 v ! x ! y)"
    by (rule put_nth[OF r1 b(3,4) b(5,6)])
  show ?thesis unfolding a2 a1 by (rule refl)
qed

lemma for_each_append:
  "for_each body (as @ bs) s = for_each body as s \<bind> for_each body bs"
  by (induction as arbitrary: s) (auto split: option.splits)

lemma upt_split: "x < n \<Longrightarrow> [0..<n] = [0..<x] @ x # [Suc x..<n]"
proof -
  assume a: "x < n"
  have "[0..<x + (n - x)] = [0..<x] @ [x..<x + (n - x)]"
    by (rule upt_add_eq_append) simp
  then show ?thesis using a by (simp add: upt_conv_Cons)
qed

lemma scan_grid_split:
  assumes "x < L" "y < M"
  shows "scan_grid L M flip g =
     scan_until M flip x y g \<bind> visit M flip x y \<bind>
       for_each (visit M flip x) [Suc y..<M] \<bind>
       for_each (\<lambda>x. for_each (visit M flip x) [0..<M]) [Suc x..<L]"
proof -
  have c: "[0..<L] = [0..<x] @ x # [Suc x..<L]"
    using assms(1) by (rule upt_split)
  have r: "[0..<M] = [0..<y] @ y # [Suc y..<M]"
    using assms(2) by (rule upt_split)
  have col: "\<And>s. for_each (visit M flip x) [0..<M] s =
      for_each (visit M flip x) [0..<y] s \<bind> visit M flip x y \<bind>
        for_each (visit M flip x) [Suc y..<M]"
    by (subst r) (auto simp: for_each_append split: option.splits Option.bind_splits)
  show ?thesis
    unfolding scan_grid_def scan_until_def
    by (subst c) (auto simp: for_each_append col split: option.splits Option.bind_splits)
qed

lemma visit_records:
  assumes r: "rect L M (cells s)" and x: "x < L" and y: "y < M"
  shows "\<exists>s'. visit M flip x y s = Some s' \<and>
    (tilesToRedraw s' = tilesToRedraw s \<or>
     (y < M - 1 \<and> vertical (cells s ! x ! y) (cells s ! x ! (y + 1)) \<and>
      tilesToRedraw s' = tilesToRedraw s @
         [Redraw x y (cells s ! x ! (y + 1)), Redraw x (y + 1) (cells s ! x ! y)]) \<or>
     (0 < x \<and>
      tilesToRedraw s' = tilesToRedraw s @
         [Redraw x y (cells s ! (x - 1) ! y), Redraw (x - 1) y (cells s ! x ! y)]))"
proof (cases "y < M - 1")
  case False
  then show ?thesis using visit_bottom[OF r x y False, of flip] by simp
next
  case yb: True
  show ?thesis
  proof (cases "vertical (cells s ! x ! y) (cells s ! x ! (y + 1))")
    case True
    then show ?thesis using visit_vertical[OF r x yb True, of flip] yb by blast
  next
    case nv: False
    show ?thesis
    proof (cases "0 < x \<and> horizontal (flip x y) (cells s ! x ! y) (cells s ! x ! (y + 1))
           (cells s ! (x - 1) ! y) (cells s ! (x - 1) ! (y + 1))")
      case True
      then show ?thesis using visit_horizontal[where flip=flip, OF r x yb _ nv] by blast
    next
      case False
      then show ?thesis using visit_idle[where flip=flip, OF r x yb nv] by blast
    qed
  qed
qed

lemma untouched_visit:
  assumes u: "untouched L M g0 x y s" and r0: "rect L M g0"
    and b: "x < L" "y < M - 1" and w: "g0 ! x ! y = TILE_WATER"
    and nl: "y = 0 \<or> g0 ! x ! (y - 1) \<noteq> TILE_LAND"
    and b': "x' < L" "y' < M" and before: "x' < x \<or> (x' = x \<and> y' < y)"
  shows "\<exists>s'. visit M flip x' y' s = Some s' \<and> untouched L M g0 x y s'"
proof -
  have i: "inv L M g0 s" and n1: "(x, y) \<notin> coord ` set (tilesToRedraw s)"
    and n2: "(x, y + 1) \<notin> coord ` set (tilesToRedraw s)"
    using u by (simp_all add: untouched_def)
  have r: "rect L M (cells s)" using i by (simp add: inv_def)
  have yM: "y < M" using b(2) by arith
  have cxy: "cells s ! x ! y = TILE_WATER"
    using i b(1) yM n1 w unfolding inv_def by (auto split: if_splits)
  from inv_visit[OF i r0 b', of flip] obtain s' where
    v: "visit M flip x' y' s = Some s'" and i': "inv L M g0 s'" by blast
  from visit_records[OF r b', of flip] v have
    c: "tilesToRedraw s' = tilesToRedraw s \<or>
     (y' < M - 1 \<and> vertical (cells s ! x' ! y') (cells s ! x' ! (y' + 1)) \<and>
      tilesToRedraw s' = tilesToRedraw s @
         [Redraw x' y' (cells s ! x' ! (y' + 1)), Redraw x' (y' + 1) (cells s ! x' ! y')]) \<or>
     (0 < x' \<and>
      tilesToRedraw s' = tilesToRedraw s @
         [Redraw x' y' (cells s ! (x' - 1) ! y'), Redraw (x' - 1) y' (cells s ! x' ! y')])"
    by auto
  have "(x, y) \<notin> coord ` set (tilesToRedraw s') \<and> (x, y + 1) \<notin> coord ` set (tilesToRedraw s')"
    using c
  proof (elim disjE conjE)
    assume "tilesToRedraw s' = tilesToRedraw s"
    then show ?thesis using n1 n2 by simp
  next
    assume vv: "vertical (cells s ! x' ! y') (cells s ! x' ! (y' + 1))"
      and t: "tilesToRedraw s' = tilesToRedraw s @
         [Redraw x' y' (cells s ! x' ! (y' + 1)), Redraw x' (y' + 1) (cells s ! x' ! y')]"
    have "(x', y' + 1) \<noteq> (x, y)"
    proof
      assume e: "(x', y' + 1) = (x, y)"
      then have e': "x' = x" "y' = y - 1" "y \<noteq> 0" "y' + 1 = y" by auto
      have "cells s ! x ! (y - 1) = TILE_LAND"
        using vv cxy e' by (auto simp: vertical_def)
      moreover have "movable (cells s ! x ! (y - 1))"
        using calculation by (simp add: movable_def)
      then have "cells s ! x ! (y - 1) = g0 ! x ! (y - 1)"
        using inv_fresh(2)[OF i b'(1), of y'] b'(2) e' by simp
      ultimately show False using nl e' by simp
    qed
    moreover have "(x', y') \<noteq> (x, y)" "(x', y') \<noteq> (x, y + 1)" "(x', y' + 1) \<noteq> (x, y + 1)"
      using before by auto
    ultimately show ?thesis using n1 n2 by (auto simp: t coord_def)
  next
    assume x0: "0 < x'"
      and t: "tilesToRedraw s' = tilesToRedraw s @
         [Redraw x' y' (cells s ! (x' - 1) ! y'), Redraw (x' - 1) y' (cells s ! x' ! y')]"
    have "x' - 1 \<noteq> x" using before x0 by arith
    moreover have "(x', y') \<noteq> (x, y)" "(x', y') \<noteq> (x, y + 1)"
      using before by auto
    ultimately show ?thesis using n1 n2 by (auto simp: t coord_def)
  qed
  with v i' show ?thesis by (auto simp: untouched_def)
qed

lemma untouched_until:
  assumes r0: "rect L M g0"
    and b: "x < L" "y < M - 1" and w: "g0 ! x ! y = TILE_WATER"
    and nl: "y = 0 \<or> g0 ! x ! (y - 1) \<noteq> TILE_LAND"
  shows "\<exists>s. scan_until M flip x y g0 = Some s \<and> untouched L M g0 x y s"
proof -
  have u0: "untouched L M g0 x y (scan_start g0)"
    using inv_init[OF r0] by (simp add: untouched_def scan_start_def)
  have "\<exists>s. for_each (\<lambda>x. for_each (visit M flip x) [0..<M]) [0..<x] (scan_start g0) = Some s \<and>
      untouched L M g0 x y s"
    using u0
  proof (rule for_each_invariant)
    fix x' s assume x': "x' \<in> set [0..<x]" and u: "untouched L M g0 x y s"
    show "\<exists>s'. for_each (visit M flip x') [0..<M] s = Some s' \<and> untouched L M g0 x y s'"
      using u
    proof (rule for_each_invariant)
      fix y' t assume "y' \<in> set [0..<M]" and "untouched L M g0 x y t"
      then show "\<exists>s'. visit M flip x' y' t = Some s' \<and> untouched L M g0 x y s'"
        using untouched_visit[OF _ r0 b w nl, of t x' y' flip] x' b(1) by simp
    qed
  qed
  then obtain s1 where
    s1: "for_each (\<lambda>x. for_each (visit M flip x) [0..<M]) [0..<x] (scan_start g0) = Some s1"
      "untouched L M g0 x y s1" by blast
  have "\<exists>s. for_each (visit M flip x) [0..<y] s1 = Some s \<and> untouched L M g0 x y s"
    using s1(2)
  proof (rule for_each_invariant)
    fix y' t assume "y' \<in> set [0..<y]" and "untouched L M g0 x y t"
    then show "\<exists>s'. visit M flip x y' t = Some s' \<and> untouched L M g0 x y s'"
      using untouched_visit[OF _ r0 b w nl, of t x y' flip] b by simp
  qed
  then show ?thesis using s1(1) by (simp add: scan_until_def)
qed

lemma extends_visit:
  assumes e: "extends L M g0 rs s" and r0: "rect L M g0" and b: "x < L" "y < M"
  shows "\<exists>s'. visit M flip x y s = Some s' \<and> extends L M g0 rs s'"
proof -
  have i: "inv L M g0 s" using e by (simp add: extends_def)
  have r: "rect L M (cells s)" using i by (simp add: inv_def)
  from e obtain post where p: "tilesToRedraw s = rs @ post" by (auto simp: extends_def)
  from inv_visit[OF i r0 b, of flip] obtain s' where
    v: "visit M flip x y s = Some s'" and i': "inv L M g0 s'" by blast
  from visit_records[OF r b, of flip] v obtain more where
    "tilesToRedraw s' = tilesToRedraw s @ more" by auto
  then have "tilesToRedraw s' = rs @ (post @ more)" using p by simp
  then show ?thesis using v i' unfolding extends_def by blast
qed

lemma extends_rest:
  assumes e: "extends L M g0 rs s" and r0: "rect L M g0" and b: "x < L"
  shows "\<exists>s'. (for_each (visit M flip x) [Suc y..<M] s \<bind>
       for_each (\<lambda>x. for_each (visit M flip x) [0..<M]) [Suc x..<L]) = Some s' \<and>
     extends L M g0 rs s'"
proof -
  have "\<exists>s1. for_each (visit M flip x) [Suc y..<M] s = Some s1 \<and> extends L M g0 rs s1"
    using e
  proof (rule for_each_invariant)
    fix y' t assume "y' \<in> set [Suc y..<M]" and "extends L M g0 rs t"
    then show "\<exists>s'. visit M flip x y' t = Some s' \<and> extends L M g0 rs s'"
      using extends_visit[OF _ r0 b, of rs t y' flip] by simp
  qed
  then obtain s1 where s1: "for_each (visit M flip x) [Suc y..<M] s = Some s1"
    "extends L M g0 rs s1" by blast
  have "\<exists>s'. for_each (\<lambda>x. for_each (visit M flip x) [0..<M]) [Suc x..<L] s1 = Some s' \<and>
      extends L M g0 rs s'"
    using s1(2)
  proof (rule for_each_invariant)
    fix x' t assume x': "x' \<in> set [Suc x..<L]" and u: "extends L M g0 rs t"
    show "\<exists>s'. for_each (visit M flip x') [0..<M] t = Some s' \<and> extends L M g0 rs s'"
      using u
    proof (rule for_each_invariant)
      fix y' t' assume "y' \<in> set [0..<M]" and "extends L M g0 rs t'"
      then show "\<exists>s'. visit M flip x' y' t' = Some s' \<and> extends L M g0 rs s'"
        using extends_visit[OF _ r0, of rs t' x' y' flip] x' by simp
    qed
  qed
  then show ?thesis using s1(1) by simp
qed

lemma scenarioB_tick:
  "map_option tilesToRedraw (scan_grid 2 2 heads scenarioB) =
     Some [Redraw 1 0 TILE_AIR, Redraw 1 1 TILE_WATER] \<and>
   map_option tilesToRedraw (scan_grid 2 2 tails scenarioB) =
     Some [Redraw 1 0 TILE_AIR, Redraw 1 1 TILE_WATER]"
  by code_simp

lemma colours_truthy: "map_of TILE_COLORS k = Some c \<Longrightarrow> c \<noteq> []"
  by (auto simp: TILE_COLORS_def split: if_splits)

lemma updateCurrentTileType_keys:
  "updateCurrentTileType ''w'' scenarioA = scenarioA\<lparr>currentTileType := ''w''\<rparr> \<and>
   updateCurrentTileType ''='' scenarioA = scenarioA\<lparr>currentTileType := ''=''\<rparr> \<and>
   updateCurrentTileType ''Enter'' scenarioA = scenarioA \<and>
   updateCurrentTileType ''q'' scenarioA = scenarioA"
  by code_simp

lemma inv_until:
  assumes r0: "rect L M g0" and b: "x < L" "y \<le> M"
  shows "\<exists>s. scan_until M flip x y g0 = Some s \<and> inv L M g0 s"
proof -
  have "\<exists>s. for_each (\<lambda>x. for_each (visit M flip x) [0..<M]) [0..<x] (scan_start g0) = Some s \<and>
      inv L M g0 s"
    using inv_init[OF r0]
  proof (rule for_each_invariant)
    fix x' s assume "x' \<in> set [0..<x]" and "inv L M g0 s"
    then show "\<exists>s'. for_each (visit M flip x') [0..<M] s = Some s' \<and> inv L M g0 s'"
      using inv_column[OF _ r0, of s x' flip] b(1) by simp
  qed
  then obtain s1 where
    s1: "for_each (\<lambda>x. for_each (visit M flip x) [0..<M]) [0..<x] (scan_start g0) = Some s1"
      "inv L M g0 s1" by blast
  have "\<exists>s. for_each (visit M flip x) [0..<y] s1 = Some s \<and> inv L M g0 s"
    using s1(2)
  proof (rule for_each_invariant)
    fix y' t assume "y' \<in> set [0..<y]" and "inv L M g0 t"
    then show "\<exists>s'. visit M flip x y' t = Some s' \<and> inv L M g0 s'"
      using inv_visit[OF _ r0 b(1), of t y' flip] b(2) by simp
  qed
  then show ?thesis using s1(1) by (simp add: scan_until_def)
qed

lemma swap_reaches_output:
  assumes wf: "well_formed this"
    and b: "x < horizontalTileCount this" "y < verticalTileCount this"
    and su: "scan_until (verticalTileCount this) flip x y (tiles this) = Some s"
    and i: "inv (horizontalTileCount this) (verticalTileCount this) (tiles this) s"
    and v: "visit (verticalTileCount this) flip x y s = Some s'"
    and t: "tilesToRedraw s' = tilesToRedraw s @ [Redraw x y v2, Redraw x2 y2 v1]"
  shows "\<exists>sf post this1 this'.
     scan_grid (horizontalTileCount this) (verticalTileCount this) flip (tiles this) = Some sf \<and>
     tilesToRedraw sf = tilesToRedraw s' @ post \<and>
     applyPhysics flip this = Some (tilesToRedraw sf, this1) \<and>
     tiles this1 ! x ! y = Num (- 1) \<and> tiles this1 ! x2 ! y2 = Num (- 1) \<and>
     render flip this = Some this' \<and>
     tiles this' ! x ! y = v2 \<and> tiles this' ! x2 ! y2 = v1"
proof -
  let ?L = "horizontalTileCount this" and ?M = "verticalTileCount this" and ?g = "tiles this"
  have r0: "rect ?L ?M ?g" using wf by (simp add: well_formed_def)
  from inv_visit[OF i r0 b, of flip] v have i': "inv ?L ?M ?g s'" by simp
  then have e: "extends ?L ?M ?g (tilesToRedraw s') s'" by (simp add: extends_def)
  from extends_rest[OF e r0 b(1), of flip y] obtain sf where
    sf: "(for_each (visit ?M flip x) [Suc y..<?M] s' \<bind>
       for_each (\<lambda>x. for_each (visit ?M flip x) [0..<?M]) [Suc x..<?L]) = Some sf"
    "extends ?L ?M ?g (tilesToRedraw s') sf" by blast
  have g: "scan_grid ?L ?M flip ?g = Some sf"
    using scan_grid_split[OF b, of flip ?g] su v sf(1) by simp
  from sf(2) obtain post where p: "tilesToRedraw sf = tilesToRedraw s' @ post"
    and isf: "inv ?L ?M ?g sf"
    by (auto simp: extends_def)
  let ?rs = "tilesToRedraw sf"
  have ib: "in_bounds ?L ?M ?rs" and di: "distinct (map coord ?rs)"
    and cc: "\<And>x y. x < ?L \<Longrightarrow> y < ?M \<Longrightarrow>
        (if (x, y) \<in> coord ` set ?rs
         then cells sf ! x ! y = Num (- 1) \<and> movable (?g ! x ! y)
         else cells sf ! x ! y = ?g ! x ! y)"
    using isf unfolding inv_def by blast+
  have m1: "Redraw x y v2 \<in> set ?rs" and m2: "Redraw x2 y2 v1 \<in> set ?rs"
    by (simp_all add: p t)
  have b2: "x2 < ?L" "y2 < ?M" using ib m2 by (auto simp: in_bounds_def)
  have "coord (Redraw x y v2) \<in> coord ` set ?rs" using m1 by (rule imageI)
  then have n1: "(x, y) \<in> coord ` set ?rs" by (simp add: coord_def)
  have "coord (Redraw x2 y2 v1) \<in> coord ` set ?rs" using m2 by (rule imageI)
  then have n2: "(x2, y2) \<in> coord ` set ?rs" by (simp add: coord_def)
  have c1: "cells sf ! x ! y = Num (- 1)"
    using cc[OF b] n1 by simp
  have c2: "cells sf ! x2 ! y2 = Num (- 1)"
    using cc[OF b2] n2 by simp
  have a: "applyPhysics flip this = Some (?rs, this\<lparr>tiles := cells sf\<rparr>)"
    by (simp add: applyPhysics_def g)
  from frame[OF wf, of flip] g have
    f: "render flip this = Some (this\<lparr>tiles := apply_redraw ?rs ?g\<rparr>)"
    by auto
  have h1: "apply_redraw ?rs ?g ! x ! y = v2"
    using apply_redraw_hit[OF r0 ib di m1] by simp
  have h2: "apply_redraw ?rs ?g ! x2 ! y2 = v1"
    using apply_redraw_hit[OF r0 ib di m2] by simp
  show ?thesis
    using g p a c1 c2 f h1 h2
    by (intro exI[of _ sf] exI[of _ post] exI[of _ "this\<lparr>tiles := cells sf\<rparr>"]
          exI[of _ "this\<lparr>tiles := apply_redraw ?rs ?g\<rparr>"]) simp
qed

lemma vertical_visit:
  assumes "rect L M (cells s)" and "x < L" and "y < M - 1"
    and "(cells s ! x ! y = TILE_LAND \<and>
            (cells s ! x ! (y + 1) = TILE_AIR \<or> cells s ! x ! (y + 1) = TILE_WATER)) \<or>
         (cells s ! x ! y = TILE_WATER \<and> cells s ! x ! (y + 1) = TILE_AIR)"
  shows "\<exists>s'. visit M flip x y s = Some s' \<and>
     tilesToRedraw s' = tilesToRedraw s @
        [Redraw x y (cells s ! x ! (y + 1)), Redraw x (y + 1) (cells s ! x ! y)] \<and>
     cells s' ! x ! y = Num (- 1) \<and> cells s' ! x ! (y + 1) = Num (- 1) \<and>
     (\<forall>x'<L. \<forall>y'<M. (x', y') \<noteq> (x, y) \<and> (x', y') \<noteq> (x, y + 1) \<longrightarrow>
        cells s' ! x' ! y' = cells s ! x' ! y') \<and>
     accesses s' = accesses s @
        [Lookup x y, Lookup x (y + 1), Store x y, Store x (y + 1)] @
        (if 0 < x then [Lookup (x - 1) y, Lookup (x - 1) (y + 1)] else [])"
proof -
  have v: "vertical (cells s ! x ! y) (cells s ! x ! (y + 1))"
    using assms(4) by (simp add: vertical_def)
  have b: "y < M" "y + 1 < M" using assms(3) by arith+
  from visit_vertical[OF assms(1-3) v, of flip] obtain s' where
    s': "visit M flip x y s = Some s'"
    "cells s' = put (put (cells s) x y (Num (- 1))) x (y + 1) (Num (- 1))"
    "tilesToRedraw s' = tilesToRedraw s @
         [Redraw x y (cells s ! x ! (y + 1)), Redraw x (y + 1) (cells s ! x ! y)]"
    "accesses s' = accesses s @
         [Lookup x y, Lookup x (y + 1), Store x y, Store x (y + 1)] @
         (if 0 < x then [Lookup (x - 1) y, Lookup (x - 1) (y + 1)] else [])"
    by blast
  have n: "\<And>x' y'. x' < L \<Longrightarrow> y' < M \<Longrightarrow> cells s' ! x' ! y' =
     (if x' = x \<and> y' = y + 1 then Num (- 1)
      else if x' = x \<and> y' = y then Num (- 1) else cells s ! x' ! y')"
    unfolding s'(2) using assms(1,2) b by (intro put2_nth) simp_all
  have "cells s' ! x ! y = Num (- 1)" using n[OF assms(2) b(1)] by simp
  moreover have "cells s' ! x ! (y + 1) = Num (- 1)" using n[OF assms(2) b(2)] by simp
  moreover have "\<forall>x'<L. \<forall>y'<M. (x', y') \<noteq> (x, y) \<and> (x', y') \<noteq> (x, y + 1) \<longrightarrow>
        cells s' ! x' ! y' = cells s ! x' ! y'"
    using n by auto
  ultimately show ?thesis using s'(1,3,4) by blast
qed

lemma horizontal_visit:
  assumes "rect L M (cells s)" and "x < L" and "y < M - 1" and "0 < x"
    and "(flip x y \<and> cells s ! x ! y = TILE_WATER \<and> cells s ! (x - 1) ! y = TILE_AIR \<and>
            cells s ! x ! (y + 1) \<noteq> TILE_AIR) \<or>
         (\<not> flip x y \<and> cells s ! x ! y = TILE_AIR \<and> cells s ! (x - 1) ! y = TILE_WATER \<and>
            cells s ! (x - 1) ! (y + 1) \<noteq> TILE_AIR)"
  shows "\<exists>s'. visit M flip x y s = Some s' \<and>
     tilesToRedraw s' = tilesToRedraw s @
        [Redraw x y (cells s ! (x - 1) ! y), Redraw (x - 1) y (cells s ! x ! y)] \<and>
     cells s' ! x ! y = Num (- 1) \<and> cells s' ! (x - 1) ! y = Num (- 1) \<and>
     (\<forall>x'<L. \<forall>y'<M. (x', y') \<noteq> (x, y) \<and> (x', y') \<noteq> (x - 1, y) \<longrightarrow>
        cells s' ! x' ! y' = cells s ! x' ! y') \<and>
     accesses s' = accesses s @
        [Lookup x y, Lookup x (y + 1), Lookup (x - 1) y, Lookup (x - 1) (y + 1),
         Store x y, Store (x - 1) y]"
proof -
  have h: "horizontal (flip x y) (cells s ! x ! y) (cells s ! x ! (y + 1))
           (cells s ! (x - 1) ! y) (cells s ! (x - 1) ! (y + 1))"
    using assms(5) by (simp add: horizontal_def)
  have nv: "\<not> vertical (cells s ! x ! y) (cells s ! x ! (y + 1))"
    using assms(5) by (auto simp: vertical_def)
  have b: "y < M" "x - 1 < L" using assms(2,3) by arith+
  from visit_horizontal[where flip=flip, OF assms(1-4) nv h] obtain s' where
    s': "visit M flip x y s = Some s'"
    "cells s' = put (put (cells s) x y (Num (- 1))) (x - 1) y (Num (- 1))"
    "tilesToRedraw s' = tilesToRedraw s @
         [Redraw x y (cells s ! (x - 1) ! y), Redraw (x - 1) y (cells s ! x ! y)]"
    "accesses s' = accesses s @
         [Lookup x y, Lookup x (y + 1), Lookup (x - 1) y, Lookup (x - 1) (y + 1),
          Store x y, Store (x - 1) y]"
    by blast
  have n: "\<And>x' y'. x' < L \<Longrightarrow> y' < M \<Longrightarrow> cells s' ! x' ! y' =
     (if x' = x - 1 \<and> y' = y then Num (- 1)
      else if x' = x \<and> y' = y then Num (- 1) else cells s ! x' ! y')"
    unfolding s'(2) using assms(1,2) b by (intro put2_nth) simp_all
  have "cells s' ! x ! y = Num (- 1)" using n[OF assms(2) b(1)] by simp
  moreover have "cells s' ! (x - 1) ! y = Num (- 1)" using n[OF b(2) b(1)] by simp
  moreover have "\<forall>x'<L. \<forall>y'<M. (x', y') \<noteq> (x, y) \<and> (x', y') \<noteq> (x - 1, y) \<longrightarrow>
        cells s' ! x' ! y' = cells s ! x' ! y'"
    using n by auto
  ultimately show ?thesis using s'(1,3,4) by blast
qed

lemma pool_prefix:
  "scan_until 2 heads 1 0 basin =
     Some \<lparr>cells = basin, tilesToRedraw = [],
           accesses = [Lookup 0 0, Lookup 0 1, Lookup 0 1, Lookup 0 2]\<rparr>"
  by code_simp

lemma visit_trace:
  assumes r: "rect L M (cells s)" and x: "x < L" and y: "y < M"
  shows "\<exists>s' as. visit M flip x y s = Some s' \<and> rect L M (cells s') \<and>
     accesses s' = accesses s @ as \<and>
     filter is_lookup as = [Lookup x y, Lookup x (y + 1)] @
        (if y < M - 1 \<and> 0 < x then [Lookup (x - 1) y, Lookup (x - 1) (y + 1)] else []) \<and>
     (\<forall>a \<in> set as. \<not> is_lookup a \<longrightarrow> in_range L M a) \<and>
     (y < M - 1 \<longrightarrow> (\<forall>a \<in> set as. in_range L M a)) \<and>
     (\<not> y < M - 1 \<longrightarrow> as = [Lookup x y, Lookup x M] \<and> cells s' = cells s \<and>
        tilesToRedraw s' = tilesToRedraw s)"
proof (cases "y < M - 1")
  case False
  then have e: "y + 1 = M" using y by arith
  show ?thesis
    using visit_bottom[OF r x y False, of flip] r e False
    by (intro exI[of _ "s\<lparr>accesses := accesses s @ [Lookup x y, Lookup x (y + 1)]\<rparr>"]
          exI[of _ "[Lookup x y, Lookup x (y + 1)]"]) auto
next
  case yb: True
  then have b: "y + 1 < M" by arith
  have t: "in_range L M (Lookup x y)" "in_range L M (Lookup x (y + 1))"
     "in_range L M (Store x y)" "in_range L M (Store x (y + 1))"
     "0 < x \<Longrightarrow> in_range L M (Lookup (x - 1) y)"
     "0 < x \<Longrightarrow> in_range L M (Lookup (x - 1) (y + 1))"
     "0 < x \<Longrightarrow> in_range L M (Store (x - 1) y)"
    using x y b by auto
  show ?thesis
  proof (cases "vertical (cells s ! x ! y) (cells s ! x ! (y + 1))")
    case True
    from visit_vertical[OF r x yb True, of flip] obtain s' where
      s': "visit M flip x y s = Some s'"
      "cells s' = put (put (cells s) x y (Num (- 1))) x (y + 1) (Num (- 1))"
      "accesses s' = accesses s @
         [Lookup x y, Lookup x (y + 1), Store x y, Store x (y + 1)] @
         (if 0 < x then [Lookup (x - 1) y, Lookup (x - 1) (y + 1)] else [])"
      by blast
    have "rect L M (cells s')" using r by (simp add: s'(2) rect_put)
    then show ?thesis using s'(1,3) t yb
      by (intro exI[of _ s'] exI[of _ "[Lookup x y, Lookup x (y + 1), Store x y, Store x (y + 1)] @
         (if 0 < x then [Lookup (x - 1) y, Lookup (x - 1) (y + 1)] else [])"]) auto
  next
    case nv: False
    show ?thesis
    proof (cases "0 < x \<and> horizontal (flip x y) (cells s ! x ! y) (cells s ! x ! (y + 1))
           (cells s ! (x - 1) ! y) (cells s ! (x - 1) ! (y + 1))")
      case True
      then have x0: "0 < x" and h: "horizontal (flip x y) (cells s ! x ! y) (cells s ! x ! (y + 1))
           (cells s ! (x - 1) ! y) (cells s ! (x - 1) ! (y + 1))" by simp_all
      from visit_horizontal[where flip=flip, OF r x yb x0 nv h] obtain s' where
        s': "visit M flip x y s = Some s'"
        "cells s' = put (put (cells s) x y (Num (- 1))) (x - 1) y (Num (- 1))"
        "accesses s' = accesses s @
         [Lookup x y, Lookup x (y + 1), Lookup (x - 1) y, Lookup (x - 1) (y + 1),
          Store x y, Store (x - 1) y]"
        by blast
      have "rect L M (cells s')" using r by (simp add: s'(2) rect_put)
      then show ?thesis using s'(1,3) t yb x0
        by (intro exI[of _ s'] exI[of _ "[Lookup x y, Lookup x (y + 1), Lookup (x - 1) y,
            Lookup (x - 1) (y + 1), Store x y, Store (x - 1) y]"]) auto
    next
      case False
      with visit_idle[where flip=flip, OF r x yb nv] obtain s' where
        s': "visit M flip x y s = Some s'" "cells s' = cells s"
        "accesses s' = accesses s @ [Lookup x y, Lookup x (y + 1)] @
         (if 0 < x then [Lookup (x - 1) y, Lookup (x - 1) (y + 1)] else [])"
        by blast
      show ?thesis using s' r t yb
        by (intro exI[of _ s'] exI[of _ "[Lookup x y, Lookup x (y + 1)] @
         (if 0 < x then [Lookup (x - 1) y, Lookup (x - 1) (y + 1)] else [])"]) auto
    qed
  qed
qed

lemma visit_out_of_range:
  assumes r: "rect L M (cells s)" and x: "x < L" and y: "y < M"
  shows "\<exists>s'. visit M flip x y s = Some s' \<and> rect L M (cells s') \<and>
     filter (\<lambda>a. \<not> in_range L M a) (accesses s') =
       filter (\<lambda>a. \<not> in_range L M a) (accesses s) @ (if Suc y = M then [Lookup x M] else [])"
proof -
  from visit_trace[OF r x y, of flip] obtain s' as where
    t: "visit M flip x y s = Some s'" "rect L M (cells s')" "accesses s' = accesses s @ as"
     "y < M - 1 \<longrightarrow> (\<forall>a \<in> set as. in_range L M a)"
     "\<not> y < M - 1 \<longrightarrow> as = [Lookup x y, Lookup x M]"
    by blast
  have "filter (\<lambda>a. \<not> in_range L M a) as = (if Suc y = M then [Lookup x M] else [])"
  proof (cases "y < M - 1")
    case True
    then have "Suc y \<noteq> M" by arith
    moreover have "filter (\<lambda>a. \<not> in_range L M a) as = []"
      using t(4) True by (simp add: filter_empty_conv)
    ultimately show ?thesis by simp
  next
    case False
    then have "Suc y = M" using y by arith
    then show ?thesis using t(5) False x y by simp
  qed
  then show ?thesis using t(1,2,3) by simp
qed

lemma for_each_upt:
  assumes "P 0 s"
    and "\<And>i t. i < n \<Longrightarrow> P i t \<Longrightarrow> \<exists>t'. body i t = Some t' \<and> P (Suc i) t'"
  shows "\<exists>s'. for_each body [0..<n] s = Some s' \<and> P n s'"
  using assms(2)
proof (induction n)
  case 0
  then show ?case using assms(1) by simp
next
  case (Suc n)
  have "\<And>i t. i < n \<Longrightarrow> P i t \<Longrightarrow> \<exists>t'. body i t = Some t' \<and> P (Suc i) t'"
    using Suc.prems by simp
  from Suc.IH[OF this] obtain s1 where
    s1: "for_each body [0..<n] s = Some s1" "P n s1" by blast
  from Suc.prems[of n s1] s1(2) obtain s2 where
    s2: "body n s1 = Some s2" "P (Suc n) s2" by auto
  have "for_each body [0..<Suc n] s = Some s2"
    using s1(1) s2(1) by (simp add: for_each_append)
  with s2(2) show ?case by blast
qed

lemma column_out_of_range:
  assumes r: "rect L M (cells s)" and x: "x < L"
  shows "\<exists>s'. for_each (visit M flip x) [0..<M] s = Some s' \<and> rect L M (cells s') \<and>
     filter (\<lambda>a. \<not> in_range L M a) (accesses s') =
       filter (\<lambda>a. \<not> in_range L M a) (accesses s) @ (if 0 < M then [Lookup x M] else [])"
proof -
  let ?F = "filter (\<lambda>a. \<not> in_range L M a)"
  let ?P = "\<lambda>y (t::scan). rect L M (cells t) \<and>
      ?F (accesses t) = ?F (accesses s) @ (if y = M \<and> 0 < M then [Lookup x M] else [])"
  have "\<exists>s'. for_each (visit M flip x) [0..<M] s = Some s' \<and> ?P M s'"
  proof (rule for_each_upt[where P = ?P])
    show "?P 0 s" using r by auto
  next
    fix y t assume y: "y < M" and p: "?P y t"
    then have rt: "rect L M (cells t)" and f: "?F (accesses t) = ?F (accesses s)" by simp_all
    from visit_out_of_range[OF rt x y, of flip] obtain t' where
      t': "visit M flip x y t = Some t'" "rect L M (cells t')"
       "?F (accesses t') = ?F (accesses t) @ (if Suc y = M then [Lookup x M] else [])"
      by blast
    have "?P (Suc y) t'" using t'(2,3) f y by simp
    with t'(1) show "\<exists>t'. visit M flip x y t = Some t' \<and> ?P (Suc y) t'" by blast
  qed
  then show ?thesis by auto
qed

lemma scan_out_of_range:
  assumes r: "rect L M g"
  shows "\<exists>sf. scan_grid L M flip g = Some sf \<and>
     filter (\<lambda>a. \<not> in_range L M a) (accesses sf) =
       (if 0 < M then map (\<lambda>x. Lookup x M) [0..<L] else [])"
proof -
  let ?F = "filter (\<lambda>a. \<not> in_range L M a)"
  let ?P = "\<lambda>k (t::scan). rect L M (cells t) \<and>
      ?F (accesses t) = (if 0 < M then map (\<lambda>x. Lookup x M) [0..<k] else [])"
  have "\<exists>s'. for_each (\<lambda>x. for_each (visit M flip x) [0..<M]) [0..<L] (scan_start g) = Some s' \<and>
      ?P L s'"
  proof (rule for_each_upt[where P = ?P])
    show "?P 0 (scan_start g)" using r by (simp add: scan_start_def)
  next
    fix k t assume k: "k < L" and p: "?P k t"
    then have rt: "rect L M (cells t)" by simp
    from column_out_of_range[OF rt k, of flip] obtain t' where
      t': "for_each (visit M flip k) [0..<M] t = Some t'" "rect L M (cells t')"
       "?F (accesses t') = ?F (accesses t) @ (if 0 < M then [Lookup k M] else [])"
      by blast
    have "?P (Suc k) t'" using t'(2,3) p by simp
    with t'(1) show "\<exists>t'. for_each (visit M flip k) [0..<M] t = Some t' \<and> ?P (Suc k) t'"
      by blast
  qed
  then show ?thesis by (auto simp: scan_grid_def)
qed

lemma trace_rest:
  assumes r: "rect L M (cells s)" and x: "x < L"
  shows "\<exists>sf post. (for_each (visit M flip x) [Suc y..<M] s \<bind>
       for_each (\<lambda>x. for_each (visit M flip x) [0..<M]) [Suc x..<L]) = Some sf \<and>
     accesses sf = accesses s @ post"
proof -
  let ?P = "\<lambda>t::scan. rect L M (cells t) \<and> (\<exists>post. accesses t = accesses s @ post)"
  have step: "\<And>x' y' t. x' < L \<Longrightarrow> y' < M \<Longrightarrow> ?P t \<Longrightarrow>
      \<exists>t'. visit M flip x' y' t = Some t' \<and> ?P t'"
  proof -
    fix x' y' t assume b: "x' < L" "y' < M" and p: "?P t"
    then obtain post where rt: "rect L M (cells t)" and a: "accesses t = accesses s @ post"
      by blast
    from visit_trace[OF rt b, of flip] obtain t' as where
      "visit M flip x' y' t = Some t'" "rect L M (cells t')" "accesses t' = accesses t @ as"
      by blast
    then show "\<exists>t'. visit M flip x' y' t = Some t' \<and> ?P t'" using a by auto
  qed
  have p0: "?P s" using r by simp
  have "\<exists>s1. for_each (visit M flip x) [Suc y..<M] s = Some s1 \<and> ?P s1"
    using p0
  proof (rule for_each_invariant)
    fix y' t assume "y' \<in> set [Suc y..<M]" and "?P t"
    then show "\<exists>s'. visit M flip x y' t = Some s' \<and> ?P s'"
      using step[OF x, of y' t] by simp
  qed
  then obtain s1 where s1: "for_each (visit M flip x) [Suc y..<M] s = Some s1" "?P s1"
    by blast
  have "\<exists>sf. for_each (\<lambda>x. for_each (visit M flip x) [0..<M]) [Suc x..<L] s1 = Some sf \<and> ?P sf"
    using s1(2)
  proof (rule for_each_invariant)
    fix x' t assume x': "x' \<in> set [Suc x..<L]" and u: "?P t"
    show "\<exists>s'. for_each (visit M flip x') [0..<M] t = Some s' \<and> ?P s'"
      using u
    proof (rule for_each_invariant)
      fix y' t' assume "y' \<in> set [0..<M]" and "?P t'"
      then show "\<exists>s'. visit M flip x' y' t' = Some s' \<and> ?P s'"
        using step[of x' y' t'] x' by simp
    qed
  qed
  then show ?thesis using s1(1) by auto
qed

text \<open>
  The test \<^verbatim>\<open>!TILE_COLORS[ event.key ]\<close> also lets through a name that every object
  inherits. No key press delivers such a name as \<^verbatim>\<open>event.key\<close>.
\<close>

lemma inherited_name_is_selected:
  "''constructor'' \<notin> set (map fst TILE_COLORS) \<and>
   TILE_COLORS_get ''constructor'' = Inherited \<and>
   currentTileType scenarioA = ''s'' \<and>
   updateCurrentTileType ''constructor'' scenarioA = scenarioA\<lparr>currentTileType := ''constructor''\<rparr>"
  by code_simp

section \<open>The claims\<close>

text \<open>
  Claim C1, as stated, fails: when \<^verbatim>\<open>applyPhysics\<close> returns its changed-cell list,
  the cells it swapped hold the marker \<^verbatim>\<open>-1\<close>, which is not a tile value. Here land
  falls in column 0 of a 2 by 2 grid and both cells of the column are left at \<^verbatim>\<open>-1\<close>.
\<close>
theorem scan_leaves_sentinel:
  "well_formed scenarioA \<and> list_all (list_all is_tile) (tiles scenarioA) \<and>
   applyPhysics heads scenarioA =
     Some ([Redraw 0 0 TILE_AIR, Redraw 0 1 TILE_LAND],
           scenarioA\<lparr>tiles := [[Num (- 1), Num (- 1)], [TILE_STATIC, TILE_AIR]]\<rparr>) \<and>
   \<not> is_tile (Num (- 1))"
  by code_simp

text \<open>
  Claim C1, amended. On a grid of tile values, when the scan returns a cell holds
  \<^verbatim>\<open>-1\<close> exactly when a returned record addresses it; after the whole frame (the scan
  and then \<^verbatim>\<open>drawScreen\<close> on the list the scan returned) every cell again holds a
  tile value, so none holds \<^verbatim>\<open>-1\<close>.
\<close>
theorem render_restores_tiles:
  assumes "well_formed this" and "list_all (list_all is_tile) (tiles this)"
  shows "\<exists>rs this1 this'. applyPhysics flip this = Some (rs, this1) \<and>
     drawScreen rs this1 = Some this' \<and> render flip this = Some this' \<and>
     (\<forall>x<horizontalTileCount this. \<forall>y<verticalTileCount this.
        (tiles this1 ! x ! y = Num (- 1)) = ((x, y) \<in> coord ` set rs)) \<and>
     well_formed this' \<and> list_all (list_all is_tile) (tiles this')"
proof -
  let ?L = "horizontalTileCount this" and ?M = "verticalTileCount this" and ?g = "tiles this"
  from frame[OF assms(1), of flip] obtain s where
    i: "inv ?L ?M ?g s" and
    a: "applyPhysics flip this = Some (tilesToRedraw s, this\<lparr>tiles := cells s\<rparr>)" and
    d: "drawScreen (tilesToRedraw s) (this\<lparr>tiles := cells s\<rparr>) =
        Some (this\<lparr>tiles := apply_redraw (tilesToRedraw s) ?g\<rparr>)" and
    f: "render flip this = Some (this\<lparr>tiles := apply_redraw (tilesToRedraw s) ?g\<rparr>)"
    by blast
  let ?rs = "tilesToRedraw s"
  let ?h = "apply_redraw ?rs ?g"
  have r0: "rect ?L ?M ?g" using assms(1) by (simp add: well_formed_def)
  have ms: "mset (concat ?h) = mset (concat ?g)"
    and cc: "\<And>x y. x < ?L \<Longrightarrow> y < ?M \<Longrightarrow>
        (if (x, y) \<in> coord ` set ?rs
         then cells s ! x ! y = Num (- 1) \<and> movable (?g ! x ! y)
         else cells s ! x ! y = ?g ! x ! y)"
    using i unfolding inv_def by blast+
  have "set (concat ?h) = set (concat ?g)" using ms by (rule mset_eq_setD)
  moreover have "\<forall>v \<in> set (concat ?g). is_tile v"
    using assms(2) by (simp only: list_all_concat)
  ultimately have "\<forall>v \<in> set (concat ?h). is_tile v" by simp
  then have t: "list_all (list_all is_tile) ?h"
    by (simp only: list_all_concat)
  have w: "well_formed (this\<lparr>tiles := ?h\<rparr>)"
    using rect_apply_redraw[OF r0] by (simp add: well_formed_def)
  have m: "\<forall>x<?L. \<forall>y<?M. (cells s ! x ! y = Num (- 1)) = ((x, y) \<in> coord ` set ?rs)"
  proof (intro allI impI)
    fix x y assume xy: "x < ?L" "y < ?M"
    have "\<forall>v \<in> set (concat ?g). is_tile v"
      using assms(2) by (simp only: list_all_concat)
    then have "is_tile (?g ! x ! y)"
      using cell_in_concat[OF r0 xy] by blast
    then have "?g ! x ! y \<noteq> Num (- 1)" by (rule is_tile_not_mark)
    then show "(cells s ! x ! y = Num (- 1)) = ((x, y) \<in> coord ` set ?rs)"
      using cc[OF xy] by (auto split: if_splits)
  qed
  show ?thesis
    using a d f m w t by (intro exI[of _ ?rs] exI[of _ "this\<lparr>tiles := cells s\<rparr>"]
       exI[of _ "this\<lparr>tiles := ?h\<rparr>"]) simp
qed

theorem render_restores_tiles_witness:
  "well_formed scenarioA \<and> list_all (list_all is_tile) (tiles scenarioA) \<and>
   (\<exists>rs this1 this'. applyPhysics heads scenarioA = Some (rs, this1) \<and>
     drawScreen rs this1 = Some this' \<and> render heads scenarioA = Some this' \<and>
     (\<forall>x<horizontalTileCount scenarioA. \<forall>y<verticalTileCount scenarioA.
        (tiles this1 ! x ! y = Num (- 1)) = ((x, y) \<in> coord ` set rs)) \<and>
     well_formed this' \<and> list_all (list_all is_tile) (tiles this'))"
proof -
  have wf: "well_formed scenarioA"
    by (simp add: well_formed_def rect_def scenarioA_def)
  have ti: "list_all (list_all is_tile) (tiles scenarioA)"
    by (simp add: scenarioA_def is_tile_def TILE_COLORS_def TILE_AIR_def TILE_LAND_def
          TILE_STATIC_def)
  show ?thesis
    using wf ti render_restores_tiles[OF wf ti, of heads] by simp
qed

text \<open>
  Claim C2, as stated, fails when the tick is the scan alone: when \<^verbatim>\<open>applyPhysics\<close>
  returns, the two cells it swapped both hold \<^verbatim>\<open>-1\<close>, so the multiset of values in
  the grid is not the one before the tick.
\<close>

theorem scan_alone_changes_multiset:
  "well_formed scenarioA \<and>
   applyPhysics heads scenarioA =
     Some ([Redraw 0 0 TILE_AIR, Redraw 0 1 TILE_LAND],
           scenarioA\<lparr>tiles := [[Num (- 1), Num (- 1)], [TILE_STATIC, TILE_AIR]]\<rparr>) \<and>
   mset (concat [[Num (- 1), Num (- 1)], [TILE_STATIC, TILE_AIR]]) \<noteq>
     mset (concat (tiles scenarioA))"
proof -
  have a: "well_formed scenarioA \<and>
   applyPhysics heads scenarioA =
     Some ([Redraw 0 0 TILE_AIR, Redraw 0 1 TILE_LAND],
           scenarioA\<lparr>tiles := [[Num (- 1), Num (- 1)], [TILE_STATIC, TILE_AIR]]\<rparr>)"
    by code_simp
  have "Num (- 1) \<in> set (concat [[Num (- 1), Num (- 1)], [TILE_STATIC, TILE_AIR]])" by simp
  moreover have "Num (- 1) \<notin> set (concat (tiles scenarioA))"
    by (simp add: scenarioA_def TILE_AIR_def TILE_LAND_def TILE_STATIC_def)
  ultimately have "mset (concat [[Num (- 1), Num (- 1)], [TILE_STATIC, TILE_AIR]]) \<noteq>
     mset (concat (tiles scenarioA))"
    by (metis mset_eq_setD)
  with a show ?thesis by simp
qed

text \<open>
  Claim C2, amended. Over a whole frame (the scan and then \<^verbatim>\<open>drawScreen\<close> on the
  list the scan returned) the grid only has the values of pairs of cells exchanged: no
  two records address the same cell, so each cell takes part in at most one swap; every
  cell of the new grid holds either its old value or the old value of another cell that
  now holds this cell's old value; and the multiset of values over the whole grid is the
  same after the frame as before the tick.
\<close>

theorem render_conserves_tiles:
  assumes "well_formed this"
  shows "\<exists>rs this1 this'. applyPhysics flip this = Some (rs, this1) \<and>
     drawScreen rs this1 = Some this' \<and> render flip this = Some this' \<and>
     distinct (map coord rs) \<and>
     mset (concat (tiles this')) = mset (concat (tiles this)) \<and>
     (\<forall>x<horizontalTileCount this. \<forall>y<verticalTileCount this.
        tiles this' ! x ! y = tiles this ! x ! y \<or>
        (\<exists>x' y'. x' < horizontalTileCount this \<and> y' < verticalTileCount this \<and>
           (x', y') \<noteq> (x, y) \<and>
           tiles this' ! x ! y = tiles this ! x' ! y' \<and>
           tiles this' ! x' ! y' = tiles this ! x ! y))"
proof -
  let ?L = "horizontalTileCount this" and ?M = "verticalTileCount this" and ?g = "tiles this"
  from frame[OF assms, of flip] obtain s where
    i: "inv ?L ?M ?g s" and
    a: "applyPhysics flip this = Some (tilesToRedraw s, this\<lparr>tiles := cells s\<rparr>)" and
    d: "drawScreen (tilesToRedraw s) (this\<lparr>tiles := cells s\<rparr>) =
        Some (this\<lparr>tiles := apply_redraw (tilesToRedraw s) ?g\<rparr>)" and
    f: "render flip this = Some (this\<lparr>tiles := apply_redraw (tilesToRedraw s) ?g\<rparr>)"
    by blast
  let ?rs = "tilesToRedraw s"
  let ?h = "apply_redraw ?rs ?g"
  have r0: "rect ?L ?M ?g" using assms by (simp add: well_formed_def)
  have ib: "in_bounds ?L ?M ?rs" and di: "distinct (map coord ?rs)"
    and ms: "mset (concat ?h) = mset (concat ?g)"
    and pr: "\<forall>r \<in> set ?rs. \<exists>r' \<in> set ?rs.
        coord r' \<noteq> coord r \<and> rvalue r = ?g ! rx r' ! ry r' \<and> rvalue r' = ?g ! rx r ! ry r"
    using i unfolding inv_def by blast+
  have ex: "\<forall>x<?L. \<forall>y<?M. ?h ! x ! y = ?g ! x ! y \<or>
        (\<exists>x' y'. x' < ?L \<and> y' < ?M \<and> (x', y') \<noteq> (x, y) \<and>
           ?h ! x ! y = ?g ! x' ! y' \<and> ?h ! x' ! y' = ?g ! x ! y)"
  proof (intro allI impI)
    fix x y assume xy: "x < ?L" "y < ?M"
    show "?h ! x ! y = ?g ! x ! y \<or>
        (\<exists>x' y'. x' < ?L \<and> y' < ?M \<and> (x', y') \<noteq> (x, y) \<and>
           ?h ! x ! y = ?g ! x' ! y' \<and> ?h ! x' ! y' = ?g ! x ! y)"
    proof (cases "(x, y) \<in> coord ` set ?rs")
      case False
      then show ?thesis using apply_redraw_other[OF r0 ib xy] by simp
    next
      case True
      then obtain r where r: "r \<in> set ?rs" "rx r = x" "ry r = y"
        by (auto simp: coord_def)
      with pr obtain r' where r': "r' \<in> set ?rs" "coord r' \<noteq> coord r"
        "rvalue r = ?g ! rx r' ! ry r'" "rvalue r' = ?g ! rx r ! ry r" by blast
      have b': "rx r' < ?L" "ry r' < ?M" using ib r'(1) by (auto simp: in_bounds_def)
      have h1: "?h ! x ! y = rvalue r"
        using apply_redraw_hit[OF r0 ib di r(1)] r(2,3) by simp
      have h2: "?h ! rx r' ! ry r' = rvalue r'"
        using apply_redraw_hit[OF r0 ib di r'(1)] by simp
      have "(rx r', ry r') \<noteq> (x, y)" using r'(2) r(2,3) by (simp add: coord_def)
      with b' h1 h2 r' r(2,3) show ?thesis by auto
    qed
  qed
  show ?thesis
    using a d f di ms ex by (intro exI[of _ ?rs] exI[of _ "this\<lparr>tiles := cells s\<rparr>"]
       exI[of _ "this\<lparr>tiles := ?h\<rparr>"]) simp
qed

theorem render_conserves_tiles_witness:
  "well_formed scenarioA \<and>
   (\<exists>rs this1 this'. applyPhysics heads scenarioA = Some (rs, this1) \<and>
     drawScreen rs this1 = Some this' \<and> render heads scenarioA = Some this' \<and>
     distinct (map coord rs) \<and>
     mset (concat (tiles this')) = mset (concat (tiles scenarioA)) \<and>
     (\<forall>x<horizontalTileCount scenarioA. \<forall>y<verticalTileCount scenarioA.
        tiles this' ! x ! y = tiles scenarioA ! x ! y \<or>
        (\<exists>x' y'. x' < horizontalTileCount scenarioA \<and> y' < verticalTileCount scenarioA \<and>
           (x', y') \<noteq> (x, y) \<and>
           tiles this' ! x ! y = tiles scenarioA ! x' ! y' \<and>
           tiles this' ! x' ! y' = tiles scenarioA ! x ! y)))"
proof -
  have wf: "well_formed scenarioA"
    by (simp add: well_formed_def rect_def scenarioA_def)
  show ?thesis
    using wf render_conserves_tiles[OF wf, of heads] by simp
qed

text \<open>
  Claim C3. Let \<open>s\<close> be the state in which the scan of a tick reaches a cell
  \<open>(x, y)\<close> with \<open>y < H - 1\<close>; the scan does reach it. If the cell then holds land
  over air or water, or water over air, both cells still hold the values they had when
  the tick began, and the two cells swap: the visit appends the two records (the old
  value below at \<open>(x, y)\<close>, the old tile at \<open>(x, y + 1)\<close>) and at once stores
  \<^verbatim>\<open>-1\<close> in both cells, before it looks at the left neighbours, and changes no
  other cell. The two records are in the list that \<^verbatim>\<open>applyPhysics\<close> returns, both
  cells hold \<^verbatim>\<open>-1\<close> when it returns, and after the redraw of the frame each of the
  two cells holds the other's old value.
\<close>

theorem vertical_rule_swaps:
  assumes "well_formed this" and "x < horizontalTileCount this"
    and "y < verticalTileCount this - 1"
  shows "\<exists>s. scan_until (verticalTileCount this) flip x y (tiles this) = Some s \<and>
    ((cells s ! x ! y = TILE_LAND \<and>
        (cells s ! x ! (y + 1) = TILE_AIR \<or> cells s ! x ! (y + 1) = TILE_WATER)) \<or>
     (cells s ! x ! y = TILE_WATER \<and> cells s ! x ! (y + 1) = TILE_AIR) \<longrightarrow>
     cells s ! x ! y = tiles this ! x ! y \<and> cells s ! x ! (y + 1) = tiles this ! x ! (y + 1) \<and>
     (\<exists>s' sf post this1 this'.
        visit (verticalTileCount this) flip x y s = Some s' \<and>
        tilesToRedraw s' = tilesToRedraw s @
          [Redraw x y (cells s ! x ! (y + 1)), Redraw x (y + 1) (cells s ! x ! y)] \<and>
        cells s' ! x ! y = Num (- 1) \<and> cells s' ! x ! (y + 1) = Num (- 1) \<and>
        (\<forall>x'<horizontalTileCount this. \<forall>y'<verticalTileCount this.
           (x', y') \<noteq> (x, y) \<and> (x', y') \<noteq> (x, y + 1) \<longrightarrow>
           cells s' ! x' ! y' = cells s ! x' ! y') \<and>
        accesses s' = accesses s @
          [Lookup x y, Lookup x (y + 1), Store x y, Store x (y + 1)] @
          (if 0 < x then [Lookup (x - 1) y, Lookup (x - 1) (y + 1)] else []) \<and>
        scan_grid (horizontalTileCount this) (verticalTileCount this) flip (tiles this) = Some sf \<and>
        tilesToRedraw sf = tilesToRedraw s' @ post \<and>
        applyPhysics flip this = Some (tilesToRedraw sf, this1) \<and>
        tiles this1 ! x ! y = Num (- 1) \<and> tiles this1 ! x ! (y + 1) = Num (- 1) \<and>
        render flip this = Some this' \<and>
        tiles this' ! x ! y = tiles this ! x ! (y + 1) \<and>
        tiles this' ! x ! (y + 1) = tiles this ! x ! y))"
proof -
  let ?L = "horizontalTileCount this" and ?M = "verticalTileCount this" and ?g = "tiles this"
  have r0: "rect ?L ?M ?g" using assms(1) by (simp add: well_formed_def)
  have b: "y < ?M" "y + 1 < ?M" "y \<le> ?M" using assms(3) by arith+
  from inv_until[OF r0 assms(2) b(3), of flip] obtain s where
    su: "scan_until ?M flip x y ?g = Some s" and i: "inv ?L ?M ?g s" by blast
  have r: "rect ?L ?M (cells s)" using i by (simp add: inv_def)
  let ?c = "(cells s ! x ! y = TILE_LAND \<and>
        (cells s ! x ! (y + 1) = TILE_AIR \<or> cells s ! x ! (y + 1) = TILE_WATER)) \<or>
     (cells s ! x ! y = TILE_WATER \<and> cells s ! x ! (y + 1) = TILE_AIR)"
  have "?c \<longrightarrow>
     cells s ! x ! y = ?g ! x ! y \<and> cells s ! x ! (y + 1) = ?g ! x ! (y + 1) \<and>
     (\<exists>s' sf post this1 this'.
        visit ?M flip x y s = Some s' \<and>
        tilesToRedraw s' = tilesToRedraw s @
          [Redraw x y (cells s ! x ! (y + 1)), Redraw x (y + 1) (cells s ! x ! y)] \<and>
        cells s' ! x ! y = Num (- 1) \<and> cells s' ! x ! (y + 1) = Num (- 1) \<and>
        (\<forall>x'<?L. \<forall>y'<?M.
           (x', y') \<noteq> (x, y) \<and> (x', y') \<noteq> (x, y + 1) \<longrightarrow>
           cells s' ! x' ! y' = cells s ! x' ! y') \<and>
        accesses s' = accesses s @
          [Lookup x y, Lookup x (y + 1), Store x y, Store x (y + 1)] @
          (if 0 < x then [Lookup (x - 1) y, Lookup (x - 1) (y + 1)] else []) \<and>
        scan_grid ?L ?M flip ?g = Some sf \<and>
        tilesToRedraw sf = tilesToRedraw s' @ post \<and>
        applyPhysics flip this = Some (tilesToRedraw sf, this1) \<and>
        tiles this1 ! x ! y = Num (- 1) \<and> tiles this1 ! x ! (y + 1) = Num (- 1) \<and>
        render flip this = Some this' \<and>
        tiles this' ! x ! y = ?g ! x ! (y + 1) \<and>
        tiles this' ! x ! (y + 1) = ?g ! x ! y)"
  proof
    assume c: ?c
    then have m: "movable (cells s ! x ! y)" "movable (cells s ! x ! (y + 1))"
      by (auto simp: movable_def)
    have e1: "cells s ! x ! y = ?g ! x ! y"
      using inv_fresh(2)[OF i assms(2) b(1) m(1)] .
    have e2: "cells s ! x ! (y + 1) = ?g ! x ! (y + 1)"
      using inv_fresh(2)[OF i assms(2) b(2) m(2)] .
    from vertical_visit[OF r assms(2,3) c, of flip] obtain s' where
      s': "visit ?M flip x y s = Some s'"
       "tilesToRedraw s' = tilesToRedraw s @
          [Redraw x y (cells s ! x ! (y + 1)), Redraw x (y + 1) (cells s ! x ! y)]"
       "cells s' ! x ! y = Num (- 1)" "cells s' ! x ! (y + 1) = Num (- 1)"
       "\<forall>x'<?L. \<forall>y'<?M.
           (x', y') \<noteq> (x, y) \<and> (x', y') \<noteq> (x, y + 1) \<longrightarrow>
           cells s' ! x' ! y' = cells s ! x' ! y'"
       "accesses s' = accesses s @
          [Lookup x y, Lookup x (y + 1), Store x y, Store x (y + 1)] @
          (if 0 < x then [Lookup (x - 1) y, Lookup (x - 1) (y + 1)] else [])"
      by blast
    from swap_reaches_output[OF assms(1,2) b(1) su i s'(1,2)] obtain sf post this1 this' where
      o: "scan_grid ?L ?M flip ?g = Some sf"
       "tilesToRedraw sf = tilesToRedraw s' @ post"
       "applyPhysics flip this = Some (tilesToRedraw sf, this1)"
       "tiles this1 ! x ! y = Num (- 1)" "tiles this1 ! x ! (y + 1) = Num (- 1)"
       "render flip this = Some this'"
       "tiles this' ! x ! y = cells s ! x ! (y + 1)"
       "tiles this' ! x ! (y + 1) = cells s ! x ! y"
      by blast
    show "cells s ! x ! y = ?g ! x ! y \<and> cells s ! x ! (y + 1) = ?g ! x ! (y + 1) \<and>
     (\<exists>s' sf post this1 this'.
        visit ?M flip x y s = Some s' \<and>
        tilesToRedraw s' = tilesToRedraw s @
          [Redraw x y (cells s ! x ! (y + 1)), Redraw x (y + 1) (cells s ! x ! y)] \<and>
        cells s' ! x ! y = Num (- 1) \<and> cells s' ! x ! (y + 1) = Num (- 1) \<and>
        (\<forall>x'<?L. \<forall>y'<?M.
           (x', y') \<noteq> (x, y) \<and> (x', y') \<noteq> (x, y + 1) \<longrightarrow>
           cells s' ! x' ! y' = cells s ! x' ! y') \<and>
        accesses s' = accesses s @
          [Lookup x y, Lookup x (y + 1), Store x y, Store x (y + 1)] @
          (if 0 < x then [Lookup (x - 1) y, Lookup (x - 1) (y + 1)] else []) \<and>
        scan_grid ?L ?M flip ?g = Some sf \<and>
        tilesToRedraw sf = tilesToRedraw s' @ post \<and>
        applyPhysics flip this = Some (tilesToRedraw sf, this1) \<and>
        tiles this1 ! x ! y = Num (- 1) \<and> tiles this1 ! x ! (y + 1) = Num (- 1) \<and>
        render flip this = Some this' \<and>
        tiles this' ! x ! y = ?g ! x ! (y + 1) \<and>
        tiles this' ! x ! (y + 1) = ?g ! x ! y)"
      using e1 e2 s' o
      by (intro conjI exI[of _ s'] exI[of _ sf] exI[of _ post] exI[of _ this1] exI[of _ this'])
         simp_all
  qed
  with su show ?thesis by blast
qed

theorem vertical_rule_swaps_witness:
  "well_formed scenarioA \<and> 0 < horizontalTileCount scenarioA \<and>
   0 < verticalTileCount scenarioA - 1 \<and>
   (\<exists>s. scan_until 2 heads 0 0 (tiles scenarioA) = Some s \<and>
      cells s ! 0 ! 0 = TILE_LAND \<and> cells s ! 0 ! 1 = TILE_AIR \<and>
      (\<exists>s' sf post this1 this'.
        visit 2 heads 0 0 s = Some s' \<and>
        tilesToRedraw s' = tilesToRedraw s @ [Redraw 0 0 TILE_AIR, Redraw 0 1 TILE_LAND] \<and>
        cells s' ! 0 ! 0 = Num (- 1) \<and> cells s' ! 0 ! 1 = Num (- 1) \<and>
        scan_grid 2 2 heads (tiles scenarioA) = Some sf \<and>
        tilesToRedraw sf = tilesToRedraw s' @ post \<and>
        applyPhysics heads scenarioA = Some (tilesToRedraw sf, this1) \<and>
        tiles this1 ! 0 ! 0 = Num (- 1) \<and> tiles this1 ! 0 ! 1 = Num (- 1) \<and>
        render heads scenarioA = Some this' \<and>
        tiles this' ! 0 ! 0 = TILE_AIR \<and> tiles this' ! 0 ! 1 = TILE_LAND))"
proof -
  have h: "well_formed scenarioA" "0 < horizontalTileCount scenarioA"
    "0 < verticalTileCount scenarioA - 1"
    by (simp_all add: well_formed_def rect_def scenarioA_def)
  have e: "scan_until 2 heads 0 0 (tiles scenarioA) = Some (scan_start (tiles scenarioA))"
    by (simp add: scan_until_def)
  have c: "cells (scan_start (tiles scenarioA)) ! 0 ! 0 = TILE_LAND"
    "cells (scan_start (tiles scenarioA)) ! 0 ! 1 = TILE_AIR"
    by (simp_all add: scan_start_def scenarioA_def)
  have v: "verticalTileCount scenarioA = 2" "horizontalTileCount scenarioA = 2"
    "tiles scenarioA ! 0 ! 0 = TILE_LAND" "tiles scenarioA ! 0 ! Suc 0 = TILE_AIR"
    by (simp_all add: scenarioA_def)
  show ?thesis
    using h e c vertical_rule_swaps[OF h, of heads]
    by (simp add: v) (elim exE conjE, intro exI conjI; assumption)
qed

text \<open>
  Claim C4. Let \<open>s\<close> be the state in which the scan of a tick reaches a cell
  \<open>(x, y)\<close> with \<open>y < H - 1\<close> and \<open>x > 0\<close>. If the coin shows 1 and the cell
  holds water, its left neighbour air, and the cell below it is not air, or if the coin
  shows 0 and the cell holds air, its left neighbour water, and the cell below the left
  neighbour is not air, then \<open>(x, y)\<close> and \<open>(x - 1, y)\<close> swap: the visit appends the
  two records and stores \<^verbatim>\<open>-1\<close> in both cells. The two records are in the list
  that \<^verbatim>\<open>applyPhysics\<close> returns, both cells hold \<^verbatim>\<open>-1\<close> when it returns, and
  after the redraw of the frame each of the two cells holds the other's old value. The
  coin is any function of the visited cell; that it is fair is a statement about
  \<^verbatim>\<open>Math.random\<close> and not part of the model.
\<close>

theorem horizontal_rule_swaps:
  assumes "well_formed this" and "x < horizontalTileCount this"
    and "y < verticalTileCount this - 1" and "0 < x"
  shows "\<exists>s. scan_until (verticalTileCount this) flip x y (tiles this) = Some s \<and>
    ((flip x y \<and> cells s ! x ! y = TILE_WATER \<and> cells s ! (x - 1) ! y = TILE_AIR \<and>
        cells s ! x ! (y + 1) \<noteq> TILE_AIR) \<or>
     (\<not> flip x y \<and> cells s ! x ! y = TILE_AIR \<and> cells s ! (x - 1) ! y = TILE_WATER \<and>
        cells s ! (x - 1) ! (y + 1) \<noteq> TILE_AIR) \<longrightarrow>
     cells s ! x ! y = tiles this ! x ! y \<and> cells s ! (x - 1) ! y = tiles this ! (x - 1) ! y \<and>
     (\<exists>s' sf post this1 this'.
        visit (verticalTileCount this) flip x y s = Some s' \<and>
        tilesToRedraw s' = tilesToRedraw s @
          [Redraw x y (cells s ! (x - 1) ! y), Redraw (x - 1) y (cells s ! x ! y)] \<and>
        cells s' ! x ! y = Num (- 1) \<and> cells s' ! (x - 1) ! y = Num (- 1) \<and>
        (\<forall>x'<horizontalTileCount this. \<forall>y'<verticalTileCount this.
           (x', y') \<noteq> (x, y) \<and> (x', y') \<noteq> (x - 1, y) \<longrightarrow>
           cells s' ! x' ! y' = cells s ! x' ! y') \<and>
        accesses s' = accesses s @
          [Lookup x y, Lookup x (y + 1), Lookup (x - 1) y, Lookup (x - 1) (y + 1),
           Store x y, Store (x - 1) y] \<and>
        scan_grid (horizontalTileCount this) (verticalTileCount this) flip (tiles this) = Some sf \<and>
        tilesToRedraw sf = tilesToRedraw s' @ post \<and>
        applyPhysics flip this = Some (tilesToRedraw sf, this1) \<and>
        tiles this1 ! x ! y = Num (- 1) \<and> tiles this1 ! (x - 1) ! y = Num (- 1) \<and>
        render flip this = Some this' \<and>
        tiles this' ! x ! y = tiles this ! (x - 1) ! y \<and>
        tiles this' ! (x - 1) ! y = tiles this ! x ! y))"
proof -
  let ?L = "horizontalTileCount this" and ?M = "verticalTileCount this" and ?g = "tiles this"
  have r0: "rect ?L ?M ?g" using assms(1) by (simp add: well_formed_def)
  have b: "y < ?M" "x - 1 < ?L" "y \<le> ?M" using assms(2,3) by arith+
  from inv_until[OF r0 assms(2) b(3), of flip] obtain s where
    su: "scan_until ?M flip x y ?g = Some s" and i: "inv ?L ?M ?g s" by blast
  have r: "rect ?L ?M (cells s)" using i by (simp add: inv_def)
  let ?c = "(flip x y \<and> cells s ! x ! y = TILE_WATER \<and> cells s ! (x - 1) ! y = TILE_AIR \<and>
        cells s ! x ! (y + 1) \<noteq> TILE_AIR) \<or>
     (\<not> flip x y \<and> cells s ! x ! y = TILE_AIR \<and> cells s ! (x - 1) ! y = TILE_WATER \<and>
        cells s ! (x - 1) ! (y + 1) \<noteq> TILE_AIR)"
  have "?c \<longrightarrow>
     cells s ! x ! y = ?g ! x ! y \<and> cells s ! (x - 1) ! y = ?g ! (x - 1) ! y \<and>
     (\<exists>s' sf post this1 this'.
        visit ?M flip x y s = Some s' \<and>
        tilesToRedraw s' = tilesToRedraw s @
          [Redraw x y (cells s ! (x - 1) ! y), Redraw (x - 1) y (cells s ! x ! y)] \<and>
        cells s' ! x ! y = Num (- 1) \<and> cells s' ! (x - 1) ! y = Num (- 1) \<and>
        (\<forall>x'<?L. \<forall>y'<?M.
           (x', y') \<noteq> (x, y) \<and> (x', y') \<noteq> (x - 1, y) \<longrightarrow>
           cells s' ! x' ! y' = cells s ! x' ! y') \<and>
        accesses s' = accesses s @
          [Lookup x y, Lookup x (y + 1), Lookup (x - 1) y, Lookup (x - 1) (y + 1),
           Store x y, Store (x - 1) y] \<and>
        scan_grid ?L ?M flip ?g = Some sf \<and>
        tilesToRedraw sf = tilesToRedraw s' @ post \<and>
        applyPhysics flip this = Some (tilesToRedraw sf, this1) \<and>
        tiles this1 ! x ! y = Num (- 1) \<and> tiles this1 ! (x - 1) ! y = Num (- 1) \<and>
        render flip this = Some this' \<and>
        tiles this' ! x ! y = ?g ! (x - 1) ! y \<and>
        tiles this' ! (x - 1) ! y = ?g ! x ! y)"
  proof
    assume c: ?c
    then have m: "movable (cells s ! x ! y)" "movable (cells s ! (x - 1) ! y)"
      by (auto simp: movable_def)
    have e1: "cells s ! x ! y = ?g ! x ! y"
      using inv_fresh(2)[OF i assms(2) b(1) m(1)] .
    have e2: "cells s ! (x - 1) ! y = ?g ! (x - 1) ! y"
      using inv_fresh(2)[OF i b(2) b(1) m(2)] .
    from horizontal_visit[where flip=flip, OF r assms(2,3,4) c] obtain s' where
      s': "visit ?M flip x y s = Some s'"
       "tilesToRedraw s' = tilesToRedraw s @
          [Redraw x y (cells s ! (x - 1) ! y), Redraw (x - 1) y (cells s ! x ! y)]"
       "cells s' ! x ! y = Num (- 1)" "cells s' ! (x - 1) ! y = Num (- 1)"
       "\<forall>x'<?L. \<forall>y'<?M.
           (x', y') \<noteq> (x, y) \<and> (x', y') \<noteq> (x - 1, y) \<longrightarrow>
           cells s' ! x' ! y' = cells s ! x' ! y'"
       "accesses s' = accesses s @
          [Lookup x y, Lookup x (y + 1), Lookup (x - 1) y, Lookup (x - 1) (y + 1),
           Store x y, Store (x - 1) y]"
      by blast
    from swap_reaches_output[OF assms(1,2) b(1) su i s'(1,2)] obtain sf post this1 this' where
      o: "scan_grid ?L ?M flip ?g = Some sf"
       "tilesToRedraw sf = tilesToRedraw s' @ post"
       "applyPhysics flip this = Some (tilesToRedraw sf, this1)"
       "tiles this1 ! x ! y = Num (- 1)" "tiles this1 ! (x - 1) ! y = Num (- 1)"
       "render flip this = Some this'"
       "tiles this' ! x ! y = cells s ! (x - 1) ! y"
       "tiles this' ! (x - 1) ! y = cells s ! x ! y"
      by blast
    show "cells s ! x ! y = ?g ! x ! y \<and> cells s ! (x - 1) ! y = ?g ! (x - 1) ! y \<and>
     (\<exists>s' sf post this1 this'.
        visit ?M flip x y s = Some s' \<and>
        tilesToRedraw s' = tilesToRedraw s @
          [Redraw x y (cells s ! (x - 1) ! y), Redraw (x - 1) y (cells s ! x ! y)] \<and>
        cells s' ! x ! y = Num (- 1) \<and> cells s' ! (x - 1) ! y = Num (- 1) \<and>
        (\<forall>x'<?L. \<forall>y'<?M.
           (x', y') \<noteq> (x, y) \<and> (x', y') \<noteq> (x - 1, y) \<longrightarrow>
           cells s' ! x' ! y' = cells s ! x' ! y') \<and>
        accesses s' = accesses s @
          [Lookup x y, Lookup x (y + 1), Lookup (x - 1) y, Lookup (x - 1) (y + 1),
           Store x y, Store (x - 1) y] \<and>
        scan_grid ?L ?M flip ?g = Some sf \<and>
        tilesToRedraw sf = tilesToRedraw s' @ post \<and>
        applyPhysics flip this = Some (tilesToRedraw sf, this1) \<and>
        tiles this1 ! x ! y = Num (- 1) \<and> tiles this1 ! (x - 1) ! y = Num (- 1) \<and>
        render flip this = Some this' \<and>
        tiles this' ! x ! y = ?g ! (x - 1) ! y \<and>
        tiles this' ! (x - 1) ! y = ?g ! x ! y)"
      using e1 e2 s' o
      by (intro conjI exI[of _ s'] exI[of _ sf] exI[of _ post] exI[of _ this1] exI[of _ this'])
         simp_all
  qed
  with su show ?thesis by blast
qed

theorem horizontal_rule_swaps_witness:
  "well_formed pool \<and> 1 < horizontalTileCount pool \<and> 0 < verticalTileCount pool - 1 \<and>
   (0::nat) < 1 \<and>
   (\<exists>s. scan_until 2 heads 1 0 (tiles pool) = Some s \<and>
      heads 1 0 \<and> cells s ! 1 ! 0 = TILE_WATER \<and> cells s ! 0 ! 0 = TILE_AIR \<and>
      cells s ! 1 ! 1 \<noteq> TILE_AIR \<and>
      (\<exists>s' sf post this1 this'.
        visit 2 heads 1 0 s = Some s' \<and>
        tilesToRedraw s' = tilesToRedraw s @ [Redraw 1 0 TILE_AIR, Redraw 0 0 TILE_WATER] \<and>
        cells s' ! 1 ! 0 = Num (- 1) \<and> cells s' ! 0 ! 0 = Num (- 1) \<and>
        scan_grid 2 2 heads (tiles pool) = Some sf \<and>
        tilesToRedraw sf = tilesToRedraw s' @ post \<and>
        applyPhysics heads pool = Some (tilesToRedraw sf, this1) \<and>
        tiles this1 ! 1 ! 0 = Num (- 1) \<and> tiles this1 ! 0 ! 0 = Num (- 1) \<and>
        render heads pool = Some this' \<and>
        tiles this' ! 1 ! 0 = TILE_AIR \<and> tiles this' ! 0 ! 0 = TILE_WATER))"
proof -
  have h: "well_formed pool" "1 < horizontalTileCount pool" "0 < verticalTileCount pool - 1"
    "(0::nat) < 1"
    by (simp_all add: well_formed_def rect_def pool_def scenarioA_def basin_def)
  have v: "verticalTileCount pool = 2" "horizontalTileCount pool = 2" "tiles pool = basin"
    by (simp_all add: pool_def scenarioA_def)
  have c: "heads 1 0" "basin ! Suc 0 ! 0 = TILE_WATER" "basin ! 0 ! 0 = TILE_AIR"
    "basin ! Suc 0 ! Suc 0 \<noteq> TILE_AIR"
    by (simp_all add: heads_def basin_def TILE_AIR_def TILE_STATIC_def)
  show ?thesis
    using h c pool_prefix horizontal_rule_swaps[OF h, of heads]
    by (simp add: v) (elim exE conjE, intro exI conjI; assumption)
qed

text \<open>
  Claim C5, as stated, fails: with land directly above the water, the land is visited
  first and swaps with the water, which leaves \<^verbatim>\<open>-1\<close> in the water's cell; the visit
  of that cell then emits no record, whatever the coins show, and the tick's only records
  are those of the land's fall.
\<close>

theorem water_under_land_does_not_fall:
  "rect 2 3 capped \<and> capped ! 1 ! 1 = TILE_WATER \<and> capped ! 1 ! (1 + 1) = TILE_AIR \<and>
   capped ! (1 - 1) ! 1 = TILE_AIR \<and> capped ! (1 - 1) ! (1 + 1) = TILE_AIR \<and>
   map_option tilesToRedraw (scan_until 3 heads 1 1 capped) =
     Some [Redraw 1 0 TILE_WATER, Redraw 1 1 TILE_LAND] \<and>
   map_option tilesToRedraw (scan_until 3 heads 1 1 capped \<bind> visit 3 heads 1 1) =
     Some [Redraw 1 0 TILE_WATER, Redraw 1 1 TILE_LAND] \<and>
   map_option tilesToRedraw (scan_grid 2 3 heads capped) =
     Some [Redraw 1 0 TILE_WATER, Redraw 1 1 TILE_LAND] \<and>
   map_option tilesToRedraw (scan_grid 2 3 tails capped) =
     Some [Redraw 1 0 TILE_WATER, Redraw 1 1 TILE_LAND]"
  by code_simp

text \<open>
  Claim C5, amended. If moreover no land lies directly above the water (\<open>y = 0\<close>, or
  the cell above is not land), then for every outcome of the coin flips the water's cell
  is still untouched when the scan reaches it, the visit of \<open>(x, y)\<close> appends exactly the
  two records of the vertical fall, so the horizontal rule does not fire in that visit,
  and since the records of a tick address distinct cells, no other record of the tick
  addresses \<open>(x, y)\<close> or \<open>(x, y + 1)\<close>.
\<close>

theorem free_water_falls_once:
  assumes "rect L M g" and "0 < x" and "x < L" and "y < M - 1"
    and "g ! x ! y = TILE_WATER" and "g ! x ! (y + 1) = TILE_AIR"
    and "g ! (x - 1) ! y = TILE_AIR" and "g ! (x - 1) ! (y + 1) = TILE_AIR"
    and "y = 0 \<or> g ! x ! (y - 1) \<noteq> TILE_LAND"
  shows "\<exists>s s' sf post. scan_until M flip x y g = Some s \<and>
     visit M flip x y s = Some s' \<and>
     tilesToRedraw s' = tilesToRedraw s @ [Redraw x y TILE_AIR, Redraw x (y + 1) TILE_WATER] \<and>
     scan_grid L M flip g = Some sf \<and>
     tilesToRedraw sf = tilesToRedraw s' @ post \<and>
     distinct (map coord (tilesToRedraw sf))"
proof -
  have yM: "y < M" "y + 1 < M" using assms(4) by arith+
  from untouched_until[OF assms(1,3,4,5,9), of flip] obtain s where
    s: "scan_until M flip x y g = Some s" and u: "untouched L M g x y s" by blast
  have i: "inv L M g s" and n1: "(x, y) \<notin> coord ` set (tilesToRedraw s)"
    and n2: "(x, y + 1) \<notin> coord ` set (tilesToRedraw s)"
    using u by (simp_all add: untouched_def)
  have r: "rect L M (cells s)" using i by (simp add: inv_def)
  have c1: "cells s ! x ! y = TILE_WATER"
    using i assms(3,5) yM(1) n1 unfolding inv_def by (auto split: if_splits)
  have c2: "cells s ! x ! (y + 1) = TILE_AIR"
    using i assms(3,6) yM(2) n2 unfolding inv_def by (auto split: if_splits)
  have vv: "vertical (cells s ! x ! y) (cells s ! x ! (y + 1))"
    using c1 c2 by (simp add: vertical_def)
  from visit_vertical[OF r assms(3,4) vv, of flip] obtain s' where
    s': "visit M flip x y s = Some s'"
     "tilesToRedraw s' = tilesToRedraw s @ [Redraw x y TILE_AIR, Redraw x (y + 1) TILE_WATER]"
    using c1 c2 by auto
  from inv_visit[OF i assms(1,3) yM(1), of flip] s'(1) have i': "inv L M g s'" by simp
  then have e: "extends L M g (tilesToRedraw s') s'" by (simp add: extends_def)
  from extends_rest[OF e assms(1,3), of flip y] obtain sf where
    sf: "(for_each (visit M flip x) [Suc y..<M] s' \<bind>
       for_each (\<lambda>x. for_each (visit M flip x) [0..<M]) [Suc x..<L]) = Some sf"
    "extends L M g (tilesToRedraw s') sf" by blast
  have g: "scan_grid L M flip g = Some sf"
    using scan_grid_split[OF assms(3) yM(1), of flip g] s s'(1) sf(1) by simp
  from sf(2) obtain post where p: "tilesToRedraw sf = tilesToRedraw s' @ post"
    and d: "distinct (map coord (tilesToRedraw sf))"
    by (auto simp: extends_def inv_def)
  show ?thesis using s s' g p d by blast
qed

theorem free_water_falls_once_witness:
  "rect 2 2 scenarioB \<and> (0::nat) < 1 \<and> (1::nat) < 2 \<and> (0::nat) < 2 - 1 \<and>
   scenarioB ! 1 ! 0 = TILE_WATER \<and> scenarioB ! 1 ! (0 + 1) = TILE_AIR \<and>
   scenarioB ! (1 - 1) ! 0 = TILE_AIR \<and> scenarioB ! (1 - 1) ! (0 + 1) = TILE_AIR \<and>
   (\<exists>s s' sf post. scan_until 2 heads 1 0 scenarioB = Some s \<and>
     visit 2 heads 1 0 s = Some s' \<and>
     tilesToRedraw s' = tilesToRedraw s @ [Redraw 1 0 TILE_AIR, Redraw 1 (0 + 1) TILE_WATER] \<and>
     scan_grid 2 2 heads scenarioB = Some sf \<and>
     tilesToRedraw sf = tilesToRedraw s' @ post \<and>
     distinct (map coord (tilesToRedraw sf)))"
proof -
  have h: "rect 2 2 scenarioB" "(0::nat) < 1" "(1::nat) < 2" "(0::nat) < 2 - 1"
   "scenarioB ! 1 ! 0 = TILE_WATER" "scenarioB ! 1 ! (0 + 1) = TILE_AIR"
   "scenarioB ! (1 - 1) ! 0 = TILE_AIR" "scenarioB ! (1 - 1) ! (0 + 1) = TILE_AIR"
    by (simp_all add: rect_def scenarioB_def)
  have z: "(0::nat) = 0 \<or> scenarioB ! 1 ! (0 - 1) \<noteq> TILE_LAND" by simp
  show ?thesis
    using h free_water_falls_once[OF h z, of heads] by simp
qed

text \<open>
  Claim C6. A cell that holds a static value (\<^verbatim>\<open>s\<close> or one of the colour tags) keeps
  it through a tick: no record of the scan addresses the cell, so no rule moves the
  static tile and no land or water moves into its place; the cell is unchanged when the
  scan returns and after the redraw.
\<close>
theorem static_tiles_never_move:
  assumes "well_formed this" and "x < horizontalTileCount this" and "y < verticalTileCount this"
    and "is_static (tiles this ! x ! y)"
  shows "\<exists>rs this1 this'. applyPhysics flip this = Some (rs, this1) \<and>
     drawScreen rs this1 = Some this' \<and> render flip this = Some this' \<and>
     (x, y) \<notin> coord ` set rs \<and>
     tiles this1 ! x ! y = tiles this ! x ! y \<and>
     tiles this' ! x ! y = tiles this ! x ! y"
proof -
  let ?L = "horizontalTileCount this" and ?M = "verticalTileCount this" and ?g = "tiles this"
  from frame[OF assms(1), of flip] obtain s where
    i: "inv ?L ?M ?g s" and
    a: "applyPhysics flip this = Some (tilesToRedraw s, this\<lparr>tiles := cells s\<rparr>)" and
    d: "drawScreen (tilesToRedraw s) (this\<lparr>tiles := cells s\<rparr>) =
        Some (this\<lparr>tiles := apply_redraw (tilesToRedraw s) ?g\<rparr>)" and
    f: "render flip this = Some (this\<lparr>tiles := apply_redraw (tilesToRedraw s) ?g\<rparr>)"
    by blast
  let ?rs = "tilesToRedraw s"
  have r0: "rect ?L ?M ?g" using assms(1) by (simp add: well_formed_def)
  have ib: "in_bounds ?L ?M ?rs"
    and cc: "if (x, y) \<in> coord ` set ?rs
         then cells s ! x ! y = Num (- 1) \<and> movable (?g ! x ! y)
         else cells s ! x ! y = ?g ! x ! y"
    using i assms(2,3) unfolding inv_def by blast+
  have nm: "\<not> movable (?g ! x ! y)" using assms(4) by (rule is_static_not_movable)
  have n: "(x, y) \<notin> coord ` set ?rs" using cc nm by (auto split: if_splits)
  have c1: "cells s ! x ! y = ?g ! x ! y" using cc n by simp
  have c2: "apply_redraw ?rs ?g ! x ! y = ?g ! x ! y"
    using apply_redraw_other[OF r0 ib assms(2,3) n] .
  show ?thesis
    using a d f n c1 c2 by (intro exI[of _ ?rs] exI[of _ "this\<lparr>tiles := cells s\<rparr>"]
       exI[of _ "this\<lparr>tiles := apply_redraw ?rs ?g\<rparr>"]) simp
qed

theorem static_tiles_never_move_witness:
  "well_formed scenarioA \<and> 1 < horizontalTileCount scenarioA \<and> 0 < verticalTileCount scenarioA \<and>
   is_static (tiles scenarioA ! 1 ! 0) \<and>
   (\<exists>rs this1 this'. applyPhysics heads scenarioA = Some (rs, this1) \<and>
     drawScreen rs this1 = Some this' \<and> render heads scenarioA = Some this' \<and>
     (1, 0) \<notin> coord ` set rs \<and>
     tiles this1 ! 1 ! 0 = tiles scenarioA ! 1 ! 0 \<and>
     tiles this' ! 1 ! 0 = tiles scenarioA ! 1 ! 0)"
proof -
  have wf: "well_formed scenarioA"
    by (simp add: well_formed_def rect_def scenarioA_def)
  have b: "1 < horizontalTileCount scenarioA" "0 < verticalTileCount scenarioA"
    by (simp_all add: scenarioA_def)
  have st: "is_static (tiles scenarioA ! 1 ! 0)"
    by (simp add: scenarioA_def is_static_def is_tile_def TILE_COLORS_def TILE_AIR_def
          TILE_LAND_def TILE_WATER_def TILE_STATIC_def)
  show ?thesis
    using wf b st static_tiles_never_move[OF wf b st, of heads] by simp
qed

text \<open>
  Claim C7. For every grid of the shape the engine keeps and every outcome of the coin
  flips, every changed-cell record that \<^verbatim>\<open>applyPhysics\<close> returns has coordinates
  within bounds: \<open>0 \<le> x < W\<close> and \<open>0 \<le> y < H\<close>. (Coordinates are natural numbers
  in this model; the only subtraction, \<open>x - 1\<close>, is made under the guard \<open>x > 0\<close>.)
\<close>
theorem applyPhysics_records_in_bounds:
  assumes "well_formed this"
  shows "\<exists>rs this1. applyPhysics flip this = Some (rs, this1) \<and>
     (\<forall>r \<in> set rs. 0 \<le> rx r \<and> rx r < horizontalTileCount this \<and>
                    0 \<le> ry r \<and> ry r < verticalTileCount this)"
proof -
  from frame[OF assms, of flip] obtain s where
    i: "inv (horizontalTileCount this) (verticalTileCount this) (tiles this) s" and
    a: "applyPhysics flip this = Some (tilesToRedraw s, this\<lparr>tiles := cells s\<rparr>)"
    by blast
  have "in_bounds (horizontalTileCount this) (verticalTileCount this) (tilesToRedraw s)"
    using i by (simp add: inv_def)
  then show ?thesis using a by (simp add: in_bounds_def)
qed

theorem applyPhysics_records_in_bounds_witness:
  "well_formed scenarioA \<and>
   (\<exists>rs this1. applyPhysics heads scenarioA = Some (rs, this1) \<and>
     (\<forall>r \<in> set rs. 0 \<le> rx r \<and> rx r < 2 \<and> 0 \<le> ry r \<and> ry r < 2))"
proof -
  have wf: "well_formed scenarioA"
    by (simp add: well_formed_def rect_def scenarioA_def)
  show ?thesis
    using wf applyPhysics_records_in_bounds[OF wf, of heads] by (simp add: scenarioA_def)
qed

text \<open>
  Claim C8, as stated, fails: \<^verbatim>\<open>tileBelow = tiles[ x ][ y + 1 ]\<close> is read before the
  guard \<^verbatim>\<open>y < M - 1\<close>, so on the bottom row the scan looks up index \<open>M\<close>, past the
  end of the column. On a grid of one cell the guard is false and the lookup \<open>(0, 1)\<close>
  is made all the same; it yields \<^verbatim>\<open>undefined\<close>.
\<close>

theorem bottom_row_lookup_out_of_range:
  "rect 1 1 single \<and> \<not> (0::nat) < 1 - 1 \<and>
   scan_grid 1 1 heads single =
     Some \<lparr>cells = single, tilesToRedraw = [], accesses = [Lookup 0 0, Lookup 0 1]\<rparr> \<and>
   \<not> in_range 1 1 (Lookup 0 1) \<and> rd single 0 1 = Some Undefined"
  by code_simp

text \<open>
  Claim C8, amended. The scan never throws. In the visit of any cell \<open>(x, y)\<close> of a
  tick the lookups are, in order, \<open>(x, y)\<close> and \<open>(x, y + 1)\<close>, and then
  \<open>(x - 1, y)\<close> and \<open>(x - 1, y + 1)\<close> exactly when \<open>y < H - 1\<close> and \<open>x > 0\<close>;
  every store is in range, and under the guard \<open>y < H - 1\<close> so is every lookup. On the
  bottom row the visit consists of the two lookups \<open>(x, H - 1)\<close> and \<open>(x, H)\<close>
  alone: the second, the read of \<^verbatim>\<open>tileBelow\<close>, is one past the end of the column and
  yields \<^verbatim>\<open>undefined\<close>, and the visit changes neither the grid nor the list of
  records. Over the whole scan these are the only accesses out of range: one lookup
  \<open>(x, H)\<close> for each column, in column order.
\<close>

theorem scan_accesses:
  assumes "rect L M g" and "x < L" and "y < M"
  shows "\<exists>s s' sf as post.
     scan_until M flip x y g = Some s \<and> visit M flip x y s = Some s' \<and>
     accesses s' = accesses s @ as \<and>
     filter is_lookup as = [Lookup x y, Lookup x (y + 1)] @
        (if y < M - 1 \<and> 0 < x then [Lookup (x - 1) y, Lookup (x - 1) (y + 1)] else []) \<and>
     (\<forall>a \<in> set as. \<not> is_lookup a \<longrightarrow> in_range L M a) \<and>
     (y < M - 1 \<longrightarrow> (\<forall>a \<in> set as. in_range L M a)) \<and>
     (\<not> y < M - 1 \<longrightarrow> as = [Lookup x y, Lookup x M] \<and> rd (cells s) x M = Some Undefined \<and>
        cells s' = cells s \<and> tilesToRedraw s' = tilesToRedraw s) \<and>
     scan_grid L M flip g = Some sf \<and> accesses sf = accesses s' @ post \<and>
     filter (\<lambda>a. \<not> in_range L M a) (accesses sf) = map (\<lambda>x. Lookup x M) [0..<L]"
proof -
  have yM: "y \<le> M" "0 < M" using assms(3) by arith+
  from inv_until[OF assms(1,2) yM(1), of flip] obtain s where
    su: "scan_until M flip x y g = Some s" and i: "inv L M g s" by blast
  have r: "rect L M (cells s)" using i by (simp add: inv_def)
  from visit_trace[OF r assms(2,3), of flip] obtain s' as where
    t: "visit M flip x y s = Some s'" "rect L M (cells s')" "accesses s' = accesses s @ as"
     "filter is_lookup as = [Lookup x y, Lookup x (y + 1)] @
        (if y < M - 1 \<and> 0 < x then [Lookup (x - 1) y, Lookup (x - 1) (y + 1)] else [])"
     "\<forall>a \<in> set as. \<not> is_lookup a \<longrightarrow> in_range L M a"
     "y < M - 1 \<longrightarrow> (\<forall>a \<in> set as. in_range L M a)"
     "\<not> y < M - 1 \<longrightarrow> as = [Lookup x y, Lookup x M] \<and> cells s' = cells s \<and>
        tilesToRedraw s' = tilesToRedraw s"
    by blast
  from trace_rest[OF t(2) assms(2), of flip y] obtain sf post where
    sf: "(for_each (visit M flip x) [Suc y..<M] s' \<bind>
       for_each (\<lambda>x. for_each (visit M flip x) [0..<M]) [Suc x..<L]) = Some sf"
     "accesses sf = accesses s' @ post" by blast
  have g: "scan_grid L M flip g = Some sf"
    using scan_grid_split[OF assms(2,3), of flip g] su t(1) sf(1) by simp
  from scan_out_of_range[OF assms(1), of flip] g yM(2) have
    f: "filter (\<lambda>a. \<not> in_range L M a) (accesses sf) = map (\<lambda>x. Lookup x M) [0..<L]"
    by simp
  have u: "rd (cells s) x M = Some Undefined" using r assms(2) by (rule rd_past)
  show ?thesis
    using su t g sf(2) f u
    by (intro exI[of _ s] exI[of _ s'] exI[of _ sf] exI[of _ as] exI[of _ post]) simp
qed

theorem scan_accesses_witness:
  "rect 2 2 (tiles scenarioA) \<and> (1::nat) < 2 \<and> (1::nat) < 2 \<and>
   (\<exists>s s' sf as post.
     scan_until 2 heads 1 1 (tiles scenarioA) = Some s \<and> visit 2 heads 1 1 s = Some s' \<and>
     accesses s' = accesses s @ as \<and>
     as = [Lookup 1 1, Lookup 1 2] \<and> rd (cells s) 1 2 = Some Undefined \<and>
     cells s' = cells s \<and> tilesToRedraw s' = tilesToRedraw s \<and>
     scan_grid 2 2 heads (tiles scenarioA) = Some sf \<and> accesses sf = accesses s' @ post \<and>
     filter (\<lambda>a. \<not> in_range 2 2 a) (accesses sf) = [Lookup 0 2, Lookup 1 2])"
proof -
  have h: "rect 2 2 (tiles scenarioA)" "(1::nat) < 2" "(1::nat) < 2"
    by (simp_all add: rect_def scenarioA_def)
  have m: "map (\<lambda>x. Lookup x 2) [0..<2] = [Lookup 0 2, Lookup 1 2]"
    by (simp add: upt_rec)
  show ?thesis
    using h scan_accesses[OF h, of heads]
    by (simp add: m)
qed

text \<open>
  Claim C9. For every tag that a key press can deliver as \<^verbatim>\<open>event.key\<close> (a
  character or the name of a key, never the name of a property of
  \<^verbatim>\<open>Object.prototype\<close>), the selection is updated to the tag if the tag is one of the
  keys of \<^verbatim>\<open>TILE_COLORS\<close>, and the engine is left as it was otherwise.
\<close>

theorem updateCurrentTileType_selects_keys:
  assumes "key \<notin> set Object_prototype"
  shows "updateCurrentTileType key this =
     (if key \<in> set (map fst TILE_COLORS) then this\<lparr>currentTileType := key\<rparr> else this)"
proof (cases "map_of TILE_COLORS key")
  case None
  then have "key \<notin> set (map fst TILE_COLORS)" by (simp add: map_of_eq_None_iff)
  then show ?thesis using None assms
    by (simp add: updateCurrentTileType_def TILE_COLORS_get_def)
next
  case (Some c)
  then have "key \<in> set (map fst TILE_COLORS)"
    by (metis map_of_eq_None_iff option.distinct(1) set_map)
  then show ?thesis using Some colours_truthy[OF Some]
    by (simp add: updateCurrentTileType_def TILE_COLORS_get_def)
qed

theorem updateCurrentTileType_selects_keys_witness:
  "''w'' \<notin> set Object_prototype \<and> ''Enter'' \<notin> set Object_prototype \<and>
   updateCurrentTileType ''w'' scenarioA = scenarioA\<lparr>currentTileType := ''w''\<rparr> \<and>
   updateCurrentTileType ''Enter'' scenarioA = scenarioA"
proof -
  have h: "''w'' \<notin> set Object_prototype" "''Enter'' \<notin> set Object_prototype"
    by (simp_all add: Object_prototype_def)
  show ?thesis
    using h updateCurrentTileType_selects_keys[OF h(1), of scenarioA]
      updateCurrentTileType_selects_keys[OF h(2), of scenarioA]
    by (simp add: TILE_COLORS_def)
qed

text \<open>
  Claim C10. For a list of records with in-bounds coordinates, \<^verbatim>\<open>drawScreen\<close> stores
  each record's value in list order: afterwards a cell addressed by some record holds the
  value of the last record that addresses it, and a cell addressed by none is unchanged.
\<close>
theorem drawScreen_last_write_wins:
  assumes "well_formed this"
    and "in_bounds (horizontalTileCount this) (verticalTileCount this) rs"
  shows "\<exists>this'. drawScreen rs this = Some this' \<and> well_formed this' \<and>
     (\<forall>x<horizontalTileCount this. \<forall>y<verticalTileCount this.
        tiles this' ! x ! y =
          (case last_write rs x y of Some v \<Rightarrow> v | None \<Rightarrow> tiles this ! x ! y))"
proof -
  let ?L = "horizontalTileCount this" and ?M = "verticalTileCount this" and ?g = "tiles this"
  have r0: "rect ?L ?M ?g" using assms(1) by (simp add: well_formed_def)
  have d: "drawScreen rs this = Some (this\<lparr>tiles := apply_redraw rs ?g\<rparr>)"
    using for_each_wr[OF r0 assms(2)] by (simp add: drawScreen_def)
  have w: "well_formed (this\<lparr>tiles := apply_redraw rs ?g\<rparr>)"
    using rect_apply_redraw[OF r0] by (simp add: well_formed_def)
  have "\<forall>x<?L. \<forall>y<?M. apply_redraw rs ?g ! x ! y =
          (case last_write rs x y of Some v \<Rightarrow> v | None \<Rightarrow> ?g ! x ! y)"
  proof (intro allI impI)
    fix x y assume xy: "x < ?L" "y < ?M"
    show "apply_redraw rs ?g ! x ! y =
          (case last_write rs x y of Some v \<Rightarrow> v | None \<Rightarrow> ?g ! x ! y)"
      using apply_redraw_nth[OF r0 assms(2) xy] by (simp add: last_write_def Let_def)
  qed
  with d w show ?thesis by simp
qed

theorem drawScreen_last_write_wins_witness:
  "well_formed scenarioA \<and>
   in_bounds (horizontalTileCount scenarioA) (verticalTileCount scenarioA) repaint \<and>
   (\<exists>this'. drawScreen repaint scenarioA = Some this' \<and> well_formed this' \<and>
      tiles this' = [[TILE_STATIC, TILE_AIR], [TILE_STATIC, TILE_LAND]] \<and>
     (\<forall>x<horizontalTileCount scenarioA. \<forall>y<verticalTileCount scenarioA.
        tiles this' ! x ! y =
          (case last_write repaint x y of Some v \<Rightarrow> v | None \<Rightarrow> tiles scenarioA ! x ! y)))"
proof -
  have wf: "well_formed scenarioA"
    by (simp add: well_formed_def rect_def scenarioA_def)
  have ib: "in_bounds (horizontalTileCount scenarioA) (verticalTileCount scenarioA) repaint"
    by (simp add: in_bounds_def repaint_def scenarioA_def)
  have e: "drawScreen repaint scenarioA =
      Some (scenarioA\<lparr>tiles := [[TILE_STATIC, TILE_AIR], [TILE_STATIC, TILE_LAND]]\<rparr>)"
    by code_simp
  show ?thesis
    using wf ib e drawScreen_last_write_wins[OF wf ib] by simp
qed

end
